theory Spec2Isabelle
  imports Main "HOL-Library.Sublist"
begin

section \<open>Strings and the Unicode character database\<close>

text \<open>
  A Python \<open>str\<close> is a sequence of Unicode code points.  A code point is a natural number,
  a string is a list of code points; \<open>str\<close> turns an ASCII literal into such a list.
\<close>

type_synonym cp = nat
type_synonym ustr = "cp list"

definition str :: "string \<Rightarrow> ustr" where
  "str s = map of_char s"

text \<open>
  The script consults the Unicode character database through \<open>unicodedata.normalize\<close>,
  \<open>unicodedata.category\<close>, \<open>str.upper\<close>, \<open>str.strip\<close> and the classes
  \<open>\s\<close>, \<open>\d\<close>, \<open>\b\<close> and the flag \<open>re.IGNORECASE\<close> of module \<open>re\<close>.
  The database is not part of the repository; it is a parameter of the model.
\<close>

record ucd =
  normalize_NFD :: "ustr \<Rightarrow> ustr"      \<comment> \<open>\<open>unicodedata.normalize('NFD', s)\<close>\<close>
  category_Mn :: "cp \<Rightarrow> bool"           \<comment> \<open>\<open>unicodedata.category(c) == 'Mn'\<close>\<close>
  isspace :: "cp \<Rightarrow> bool"               \<comment> \<open>class \<open>\s\<close>, and what \<open>str.strip()\<close> strips\<close>
  isdecimal :: "cp \<Rightarrow> bool"             \<comment> \<open>class \<open>\d\<close>\<close>
  isword :: "cp \<Rightarrow> bool"                \<comment> \<open>class \<open>\w\<close>, which decides \<open>\b\<close>\<close>
  toupper :: "cp \<Rightarrow> ustr"               \<comment> \<open>\<open>str.upper\<close> on one character\<close>
  ci_match :: "cp \<Rightarrow> cp \<Rightarrow> bool"        \<comment> \<open>pattern literal against text character under \<open>re.IGNORECASE\<close>\<close>

definition ascii_upper :: "cp \<Rightarrow> cp" where
  "ascii_upper c = (if 97 \<le> c \<and> c \<le> 122 then c - 32 else c)"

definition ascii_lower :: "cp \<Rightarrow> cp" where
  "ascii_lower c = (if 65 \<le> c \<and> c \<le> 90 then c + 32 else c)"

definition ascii_space :: "cp \<Rightarrow> bool" where
  "ascii_space c = ((9 \<le> c \<and> c \<le> 13) \<or> (28 \<le> c \<and> c \<le> 32))"

definition ascii_digit :: "cp \<Rightarrow> bool" where
  "ascii_digit c = (48 \<le> c \<and> c \<le> 57)"

definition ascii_letter :: "cp \<Rightarrow> bool" where
  "ascii_letter c = ((65 \<le> c \<and> c \<le> 90) \<or> (97 \<le> c \<and> c \<le> 122))"

definition ascii_word :: "cp \<Rightarrow> bool" where
  "ascii_word c = (ascii_letter c \<or> ascii_digit c \<or> c = 95)"

text \<open>
  What every Unicode database does on the ASCII range: canonical decomposition leaves an
  ASCII string alone, no ASCII character is a nonspacing mark, and the classes and case
  mappings are the ASCII ones.
\<close>

definition ucd_ascii :: "ucd \<Rightarrow> bool" where
  "ucd_ascii db = (
     (\<forall>s. (\<forall>c \<in> set s. c < 128) \<longrightarrow> normalize_NFD db s = s) \<and>
     (\<forall>c. c < 128 \<longrightarrow> \<not> category_Mn db c) \<and>
     (\<forall>c. c < 128 \<longrightarrow> isspace db c = ascii_space c) \<and>
     (\<forall>c. c < 128 \<longrightarrow> isdecimal db c = ascii_digit c) \<and>
     (\<forall>c. c < 128 \<longrightarrow> isword db c = ascii_word c) \<and>
     (\<forall>c. c < 128 \<longrightarrow> toupper db c = [ascii_upper c]) \<and>
     (\<forall>p c. p < 128 \<longrightarrow> c < 128 \<longrightarrow> ci_match db p c = (ascii_lower p = ascii_lower c)))"

subsection \<open>A concrete database for Latin-1 text\<close>

text \<open>
  The entries of the Unicode database for the code points below U+0100, and the category of
  the combining diacritical marks U+0300 to U+036F.  Code points outside these blocks are
  treated as unclassified symbols without decomposition or case.
\<close>

definition latin1_decomposition :: "(cp \<times> ustr) list" where
  "latin1_decomposition = [
     (192, [65, 768]), (193, [65, 769]), (194, [65, 770]), (195, [65, 771]),
     (196, [65, 776]), (197, [65, 778]), (199, [67, 807]), (200, [69, 768]),
     (201, [69, 769]), (202, [69, 770]), (203, [69, 776]), (204, [73, 768]),
     (205, [73, 769]), (206, [73, 770]), (207, [73, 776]), (209, [78, 771]),
     (210, [79, 768]), (211, [79, 769]), (212, [79, 770]), (213, [79, 771]),
     (214, [79, 776]), (217, [85, 768]), (218, [85, 769]), (219, [85, 770]),
     (220, [85, 776]), (221, [89, 769]), (224, [97, 768]), (225, [97, 769]),
     (226, [97, 770]), (227, [97, 771]), (228, [97, 776]), (229, [97, 778]),
     (231, [99, 807]), (232, [101, 768]), (233, [101, 769]), (234, [101, 770]),
     (235, [101, 776]), (236, [105, 768]), (237, [105, 769]), (238, [105, 770]),
     (239, [105, 776]), (241, [110, 771]), (242, [111, 768]), (243, [111, 769]),
     (244, [111, 770]), (245, [111, 771]), (246, [111, 776]), (249, [117, 768]),
     (250, [117, 769]), (251, [117, 770]), (252, [117, 776]), (253, [121, 769]),
     (255, [121, 776])]"

definition latin1_decompose :: "cp \<Rightarrow> ustr" where
  "latin1_decompose c = (case map_of latin1_decomposition c of None \<Rightarrow> [c] | Some d \<Rightarrow> d)"

definition latin1_NFD :: "ustr \<Rightarrow> ustr" where
  "latin1_NFD s = concat (map latin1_decompose s)"

definition latin1_Mn :: "cp \<Rightarrow> bool" where
  "latin1_Mn c = (768 \<le> c \<and> c \<le> 879)"

definition latin1_space :: "cp \<Rightarrow> bool" where
  "latin1_space c = (ascii_space c \<or> c = 133 \<or> c = 160)"

definition latin1_letter :: "cp \<Rightarrow> bool" where
  "latin1_letter c = (c = 170 \<or> c = 181 \<or> c = 186 \<or> (192 \<le> c \<and> c \<le> 214) \<or>
     (216 \<le> c \<and> c \<le> 246) \<or> (248 \<le> c \<and> c \<le> 255))"

definition latin1_numeric :: "cp \<Rightarrow> bool" where
  "latin1_numeric c = (c = 178 \<or> c = 179 \<or> c = 185 \<or> (188 \<le> c \<and> c \<le> 190))"

definition latin1_word :: "cp \<Rightarrow> bool" where
  "latin1_word c = (ascii_word c \<or> latin1_letter c \<or> latin1_numeric c)"

definition latin1_upper :: "cp \<Rightarrow> ustr" where
  "latin1_upper c =
     (if c = 181 then [924]
      else if c = 223 then [83, 83]
      else if c = 255 then [376]
      else if (224 \<le> c \<and> c \<le> 246) \<or> (248 \<le> c \<and> c \<le> 254) then [c - 32]
      else [ascii_upper c])"

definition latin1_lower :: "cp \<Rightarrow> cp" where
  "latin1_lower c =
     (if (192 \<le> c \<and> c \<le> 214) \<or> (216 \<le> c \<and> c \<le> 222) then c + 32 else ascii_lower c)"

definition ucd_latin1 :: ucd where
  "ucd_latin1 = \<lparr> normalize_NFD = latin1_NFD, category_Mn = latin1_Mn, isspace = latin1_space,
     isdecimal = ascii_digit, isword = latin1_word, toupper = latin1_upper,
     ci_match = (\<lambda>p c. latin1_lower p = latin1_lower c) \<rparr>"

section \<open>Regular expressions of module \<open>re\<close>\<close>

text \<open>
  The fragment of the pattern language that the script uses.  An atom consumes one
  character: a literal, a class \<open>[...]\<close> or a negated class \<open>[^...]\<close>.  Repetition is
  greedy and only ever applied to an atom (\<open>\d+\<close>, \<open>\s*\<close>, \<open>[.,]?\<close>, \<open>\d{2,}\<close>).
  The flag \<open>re.IGNORECASE\<close> is only used with patterns made of literals and \<open>\b\<close>, so it
  acts on literals.
\<close>

datatype citem = CChar cp | CRange cp cp | CDigit | CSpace

datatype atom = Lit cp | In "citem list" | NotIn "citem list"

datatype regex =
    Eps
  | One atom
  | Rep atom nat "nat option"
  | WordB
  | Bol
  | Seq regex regex
  | Alt regex regex
  | Grp regex

fun citem_match :: "ucd \<Rightarrow> citem \<Rightarrow> cp \<Rightarrow> bool" where
  "citem_match db (CChar x) c = (c = x)"
| "citem_match db (CRange lo hi) c = (lo \<le> c \<and> c \<le> hi)"
| "citem_match db CDigit c = isdecimal db c"
| "citem_match db CSpace c = isspace db c"

fun atom_match :: "ucd \<Rightarrow> bool \<Rightarrow> atom \<Rightarrow> cp \<Rightarrow> bool" where
  "atom_match db ic (Lit p) c = (if ic then ci_match db p c else c = p)"
| "atom_match db ic (In cs) c = list_ex (\<lambda>x. citem_match db x c) cs"
| "atom_match db ic (NotIn cs) c = (\<not> list_ex (\<lambda>x. citem_match db x c) cs)"

text \<open>
  \<open>\b\<close> holds at position \<open>i\<close> when exactly one of the characters before and after the
  position is a word character; a missing character counts as a non-word character.
\<close>

definition at_boundary :: "ucd \<Rightarrow> ustr \<Rightarrow> nat \<Rightarrow> bool" where
  "at_boundary db s i =
     ((i < length s \<and> isword db (s ! i)) \<noteq> (0 < i \<and> i \<le> length s \<and> isword db (s ! (i - 1))))"

text \<open>
  The matcher is a backtracking one.  \<open>rmatch\<close> lists, in the order in which backtracking
  tries them, the states in which a pattern can end when started in a given state; a state
  is the position in the text and the spans of the groups closed so far.  The first element
  of the list is the match that module \<open>re\<close> reports.
\<close>

type_synonym mstate = "nat \<times> (nat \<times> nat) list"

fun rmatch :: "ucd \<Rightarrow> bool \<Rightarrow> ustr \<Rightarrow> regex \<Rightarrow> mstate \<Rightarrow> mstate list" where
  "rmatch db ic s Eps st = [st]"
| "rmatch db ic s (One a) st =
     (if fst st < length s \<and> atom_match db ic a (s ! fst st) then [(Suc (fst st), snd st)] else [])"
| "rmatch db ic s (Rep a lo hi) st =
     (let n = length (takeWhile (atom_match db ic a) (drop (fst st) s));
          m = (case hi of None \<Rightarrow> n | Some h \<Rightarrow> min h n)
      in map (\<lambda>k. (fst st + k, snd st)) (rev [lo ..< Suc m]))"
| "rmatch db ic s WordB st = (if at_boundary db s (fst st) then [st] else [])"
| "rmatch db ic s Bol st = (if fst st = 0 then [st] else [])"
| "rmatch db ic s (Seq a b) st = concat (map (rmatch db ic s b) (rmatch db ic s a st))"
| "rmatch db ic s (Alt a b) st = rmatch db ic s a st @ rmatch db ic s b st"
| "rmatch db ic s (Grp r) st =
     map (\<lambda>e. (fst e, snd e @ [(fst st, fst e)])) (rmatch db ic s r st)"

definition seqs :: "regex list \<Rightarrow> regex" where
  "seqs rs = foldr Seq rs Eps"

definition lits :: "ustr \<Rightarrow> regex" where
  "lits w = seqs (map (\<lambda>c. One (Lit c)) w)"

definition match_at :: "ucd \<Rightarrow> bool \<Rightarrow> regex \<Rightarrow> ustr \<Rightarrow> nat \<Rightarrow> mstate option" where
  "match_at db ic r s i = (case rmatch db ic s r (i, []) of [] \<Rightarrow> None | m # _ \<Rightarrow> Some m)"

text \<open>
  \<open>re.search\<close>: the leftmost position at which the pattern matches, if any.  The script
  only tests the result for truth.
\<close>

definition re_search :: "ucd \<Rightarrow> bool \<Rightarrow> regex \<Rightarrow> ustr \<Rightarrow> bool" where
  "re_search db ic r s = list_ex (\<lambda>i. match_at db ic r s i \<noteq> None) [0 ..< Suc (length s)]"

text \<open>
  The scan shared by \<open>re.findall\<close> and \<open>re.sub\<close>: leftmost matches, not overlapping, each
  search resuming where the last match ended.  No pattern of the script matches the empty
  string; after an empty match the scan moves on by one character.
\<close>

function finditer :: "ucd \<Rightarrow> bool \<Rightarrow> regex \<Rightarrow> ustr \<Rightarrow> nat \<Rightarrow> (nat \<times> mstate) list" where
  "finditer db ic r s pos =
     (if length s < pos then []
      else case match_at db ic r s pos of
             None \<Rightarrow> finditer db ic r s (Suc pos)
           | Some m \<Rightarrow> (pos, m) # finditer db ic r s (if pos < fst m then fst m else Suc pos))"
  by pat_completeness auto
termination
  by (relation "measure (\<lambda>(db, ic, r, s, pos). Suc (length s) - pos)") auto

definition slice :: "ustr \<Rightarrow> nat \<Rightarrow> nat \<Rightarrow> ustr" where
  "slice s i e = take (e - i) (drop i s)"

text \<open>Group \<open>k\<close> of a match (numbered from 1); the empty string if it did not take part.\<close>

definition group :: "ustr \<Rightarrow> mstate \<Rightarrow> nat \<Rightarrow> ustr" where
  "group s m k =
     (if 0 < k \<and> k \<le> length (snd m)
      then slice s (fst (snd m ! (k - 1))) (snd (snd m ! (k - 1))) else [])"

text \<open>\<open>re.findall\<close> for a pattern without groups: the matched substrings.\<close>

definition re_findall :: "ucd \<Rightarrow> bool \<Rightarrow> regex \<Rightarrow> ustr \<Rightarrow> ustr list" where
  "re_findall db ic r s = map (\<lambda>(i, m). slice s i (fst m)) (finditer db ic r s 0)"

text \<open>\<open>re.findall\<close> for a pattern with two groups: the pairs of group contents.\<close>

definition re_findall2 :: "ucd \<Rightarrow> bool \<Rightarrow> regex \<Rightarrow> ustr \<Rightarrow> (ustr \<times> ustr) list" where
  "re_findall2 db ic r s = map (\<lambda>(i, m). (group s m 1, group s m 2)) (finditer db ic r s 0)"

text \<open>\<open>re.sub\<close>: a replacement template is a sequence of literal characters and group
  references.\<close>

datatype ritem = RChar cp | RGroup nat

definition expand :: "ustr \<Rightarrow> mstate \<Rightarrow> ritem list \<Rightarrow> ustr" where
  "expand s m tmpl = concat (map (\<lambda>t. case t of RChar c \<Rightarrow> [c] | RGroup k \<Rightarrow> group s m k) tmpl)"

fun sub_pieces :: "ustr \<Rightarrow> ritem list \<Rightarrow> nat \<Rightarrow> (nat \<times> mstate) list \<Rightarrow> ustr" where
  "sub_pieces s tmpl pos [] = drop pos s"
| "sub_pieces s tmpl pos ((i, m) # ms) =
     slice s pos i @ expand s m tmpl @ sub_pieces s tmpl (fst m) ms"

definition re_sub :: "ucd \<Rightarrow> bool \<Rightarrow> regex \<Rightarrow> ritem list \<Rightarrow> ustr \<Rightarrow> ustr" where
  "re_sub db ic r tmpl s = sub_pieces s tmpl 0 (finditer db ic r s 0)"

section \<open>The class \<open>TraitementLibelles\<close>\<close>

definition upper :: "ucd \<Rightarrow> ustr \<Rightarrow> ustr" where
  "upper db s = concat (map (toupper db) s)"

definition strip :: "ucd \<Rightarrow> ustr \<Rightarrow> ustr" where
  "strip db s = rev (dropWhile (isspace db) (rev (dropWhile (isspace db) s)))"

definition marques :: "ustr list" where
  "marques = [str ''CRF'', str ''CARF'', str ''CARREFOUR'', str ''PAPERMATE'', str ''PM'',
              str ''SHARPIE'', str ''ROTRING'']"

definition digit :: atom where "digit = In [CDigit]"
definition space :: atom where "space = In [CSpace]"
definition digit19 :: atom where "digit19 = In [CRange 49 57]"

text \<open>\<open>[^A-Za-z0-9\s,./X+-]\<close>\<close>

definition pat_disallowed :: regex where
  "pat_disallowed = One (NotIn [CRange 65 90, CRange 97 122, CRange 48 57, CSpace,
     CChar 44, CChar 46, CChar 47, CChar 88, CChar 43, CChar 45])"

text \<open>\<open>\s+\<close>\<close>

definition pat_spaces :: regex where
  "pat_spaces = Rep space 1 None"

definition supprimer_accents_et_caracteres_speciaux :: "ucd \<Rightarrow> ustr \<Rightarrow> ustr" where
  "supprimer_accents_et_caracteres_speciaux db texte =
     (let normalise = normalize_NFD db texte;
          sans_accents = filter (\<lambda>c. \<not> category_Mn db c) normalise;
          nettoye = re_sub db False pat_disallowed [RChar 32] sans_accents
      in strip db (re_sub db False pat_spaces [RChar 32] nettoye))"

text \<open>\<open>r'\b' + re.escape(w) + r'\b'\<close>: escaping makes every character of \<open>w\<close> a literal.\<close>

definition pat_word :: "ustr \<Rightarrow> regex" where
  "pat_word w = seqs [WordB, lits w, WordB]"

definition extraire_marque :: "ucd \<Rightarrow> ustr list \<Rightarrow> ustr \<Rightarrow> ustr option" where
  "extraire_marque db ms texte =
     (let texte_majuscule = upper db texte
      in find (\<lambda>marque. re_search db False (pat_word marque) texte_majuscule) ms)"

text \<open>\<open>(?:KG|G|L|ML|CL)\<close>\<close>

definition pat_unit :: regex where
  "pat_unit = Alt (lits (str ''KG'')) (Alt (lits (str ''G'')) (Alt (lits (str ''L''))
                (Alt (lits (str ''ML'')) (lits (str ''CL'')))))"

text \<open>\<open>\b\d+[.,]\d+\s*(?:KG|G|L|ML|CL)\b\<close>\<close>

definition pattern1 :: regex where
  "pattern1 = seqs [WordB, Rep digit 1 None, One (In [CChar 46, CChar 44]), Rep digit 1 None,
                    Rep space 0 None, pat_unit, WordB]"

text \<open>\<open>\b\d+X\d+[.,]?\d*\s*(?:KG|G|L|ML|CL)\b\<close>\<close>

definition pattern2 :: regex where
  "pattern2 = seqs [WordB, Rep digit 1 None, One (Lit 88), Rep digit 1 None,
                    Rep (In [CChar 46, CChar 44]) 0 (Some 1), Rep digit 0 None,
                    Rep space 0 None, pat_unit, WordB]"

text \<open>\<open>\b(?:[1-9]\d{2,}|[1-9]\d)\s*(?:KG|G|L|ML|CL)\b\<close>\<close>

definition pattern3 :: regex where
  "pattern3 = seqs [WordB, Alt (Seq (One digit19) (Rep digit 2 None)) (Seq (One digit19) (One digit)),
                    Rep space 0 None, pat_unit, WordB]"

text \<open>\<open>(?:^|\s)([1-9])\s*(KG|G|L|ML|CL)\b\<close>\<close>

definition pattern4 :: regex where
  "pattern4 = seqs [Alt Bol (One space), Grp (One digit19), Rep space 0 None, Grp pat_unit, WordB]"

text \<open>\<open>\b\d+/\d+\s*(?:KG|G|L|ML|CL)\b\<close>\<close>

definition pattern5 :: regex where
  "pattern5 = seqs [WordB, Rep digit 1 None, One (Lit 47), Rep digit 1 None,
                    Rep space 0 None, pat_unit, WordB]"

text \<open>\<open>\b\d+/\d+\b\<close>\<close>

definition pattern6 :: regex where
  "pattern6 = seqs [WordB, Rep digit 1 None, One (Lit 47), Rep digit 1 None, WordB]"

text \<open>\<open>re.sub(r'(\d+)\.(\d+)', r'\1,\2', match)\<close>\<close>

definition point_en_virgule :: "ucd \<Rightarrow> ustr \<Rightarrow> ustr" where
  "point_en_virgule db m =
     re_sub db False (seqs [Grp (Rep digit 1 None), One (Lit 46), Grp (Rep digit 1 None)])
       [RGroup 1, RChar 44, RGroup 2] m"

text \<open>Python's \<open>x in y\<close> on strings: \<open>x\<close> occurs in \<open>y\<close> as a contiguous substring.\<close>

fun starts_with :: "ustr \<Rightarrow> ustr \<Rightarrow> bool" where
  "starts_with [] ys = True"
| "starts_with (x # xs) [] = False"
| "starts_with (x # xs) (y # ys) = (x = y \<and> starts_with xs ys)"

fun str_in :: "ustr \<Rightarrow> ustr \<Rightarrow> bool" where
  "str_in x [] = (x = [])"
| "str_in x (y # ys) = (starts_with x (y # ys) \<or> str_in x ys)"

text \<open>The loop over the matches of pattern 6, on the running list.\<close>

fun ajouter_fractions :: "ustr list \<Rightarrow> ustr list \<Rightarrow> ustr list" where
  "ajouter_fractions gvs [] = gvs"
| "ajouter_fractions gvs (m # ms) =
     ajouter_fractions (if list_ex (\<lambda>gv. str_in m gv) gvs then gvs else gvs @ [m]) ms"

text \<open>The loop that removes duplicates, on the list of unique tokens.\<close>

fun supprimer_doublons :: "ustr list \<Rightarrow> ustr list \<Rightarrow> ustr list" where
  "supprimer_doublons uniques [] = uniques"
| "supprimer_doublons uniques (gv # gvs) =
     supprimer_doublons (if gv \<in> set uniques then uniques else uniques @ [gv]) gvs"

definition regle1 :: "ucd \<Rightarrow> ustr \<Rightarrow> ustr list" where
  "regle1 db t = map (point_en_virgule db) (re_findall db False pattern1 t)"

definition regle2 :: "ucd \<Rightarrow> ustr \<Rightarrow> ustr list" where
  "regle2 db t = map (point_en_virgule db) (re_findall db False pattern2 t)"

definition regle3 :: "ucd \<Rightarrow> ustr \<Rightarrow> ustr list" where
  "regle3 db t = re_findall db False pattern3 t"

definition regle4 :: "ucd \<Rightarrow> ustr \<Rightarrow> ustr list" where
  "regle4 db t = map (\<lambda>m. fst m @ snd m) (re_findall2 db False pattern4 t)"

definition regle5 :: "ucd \<Rightarrow> ustr \<Rightarrow> ustr list" where
  "regle5 db t = re_findall db False pattern5 t"

definition regle6 :: "ucd \<Rightarrow> ustr \<Rightarrow> ustr list" where
  "regle6 db t = re_findall db False pattern6 t"

text \<open>The running list after the passes of patterns 1 to 5.\<close>

definition regles_1_a_5 :: "ucd \<Rightarrow> ustr \<Rightarrow> ustr list" where
  "regles_1_a_5 db t = regle1 db t @ regle2 db t @ regle3 db t @ regle4 db t @ regle5 db t"

text \<open>The list \<open>grammages_volumes\<close> as it stands before duplicates are removed.\<close>

definition grammages_volumes :: "ucd \<Rightarrow> ustr \<Rightarrow> ustr list" where
  "grammages_volumes db texte =
     (let texte_majuscule = upper db texte
      in ajouter_fractions (regles_1_a_5 db texte_majuscule) (regle6 db texte_majuscule))"

definition extraire_grammage_volume :: "ucd \<Rightarrow> ustr \<Rightarrow> ustr list" where
  "extraire_grammage_volume db texte = supprimer_doublons [] (grammages_volumes db texte)"

text \<open>\<open>re.sub(r'\b' + re.escape(w) + r'\b', '', nom, flags=re.IGNORECASE)\<close>\<close>

definition retirer :: "ucd \<Rightarrow> ustr \<Rightarrow> ustr \<Rightarrow> ustr" where
  "retirer db w nom = re_sub db True (pat_word w) [] nom"

definition retirer_marque :: "ucd \<Rightarrow> ustr option \<Rightarrow> ustr \<Rightarrow> ustr" where
  "retirer_marque db marque nom =
     (case marque of None \<Rightarrow> nom | Some m \<Rightarrow> if m = [] then nom else retirer db m nom)"

fun retirer_grammages :: "ucd \<Rightarrow> ustr list \<Rightarrow> ustr \<Rightarrow> ustr" where
  "retirer_grammages db [] nom = nom"
| "retirer_grammages db (gv # gvs) nom =
     (let gv_avec_point = map (\<lambda>c. if c = 44 then 46 else c) gv
      in retirer_grammages db gvs (retirer db gv_avec_point (retirer db gv nom)))"

definition espaces :: "ucd \<Rightarrow> ustr \<Rightarrow> ustr" where
  "espaces db s = strip db (re_sub db False pat_spaces [RChar 32] s)"

definition nom_produit :: "ucd \<Rightarrow> ustr option \<Rightarrow> ustr list \<Rightarrow> ustr \<Rightarrow> ustr" where
  "nom_produit db marque gvs nettoye =
     espaces db (retirer_grammages db gvs (retirer_marque db marque nettoye))"

text \<open>\<open>' '.join(parts)\<close>\<close>

fun join :: "ustr list \<Rightarrow> ustr" where
  "join [] = []"
| "join [p] = p"
| "join (p # q # ps) = p @ [32] @ join (q # ps)"

definition assembler :: "ucd \<Rightarrow> ustr option \<Rightarrow> ustr \<Rightarrow> ustr list \<Rightarrow> ustr" where
  "assembler db marque nom gvs =
     (let parties_finales =
            (case marque of None \<Rightarrow> [] | Some m \<Rightarrow> if m = [] then [] else [m]) @
            (if nom = [] then [] else [nom]) @ gvs
      in espaces db (upper db (join parties_finales)))"

definition traiter_libelle :: "ucd \<Rightarrow> ustr list \<Rightarrow> ustr \<Rightarrow> ustr" where
  "traiter_libelle db ms libelle_original =
     (let nettoye = supprimer_accents_et_caracteres_speciaux db libelle_original;
          marque = extraire_marque db ms nettoye;
          gvs = extraire_grammage_volume db nettoye
      in assembler db marque (nom_produit db marque gvs nettoye) gvs)"

section \<open>Specification-level notions\<close>

text \<open>
  Deduplication as the specification words it: of every token the first occurrence is
  kept, the later ones are dropped.
\<close>

fun first_occurrences :: "'a list \<Rightarrow> 'a list" where
  "first_occurrences [] = []"
| "first_occurrences (x # xs) = x # first_occurrences (filter (\<lambda>y. y \<noteq> x) xs)"

text \<open>
  Auxiliary notions for reasoning about the matcher: the length of the longest run of
  characters matching an atom from a position, and a literal string matching at a position.
\<close>

definition run :: "ucd \<Rightarrow> bool \<Rightarrow> atom \<Rightarrow> ustr \<Rightarrow> nat \<Rightarrow> nat" where
  "run db ic a s i = length (takeWhile (atom_match db ic a) (drop i s))"

definition lit_match :: "ucd \<Rightarrow> bool \<Rightarrow> ustr \<Rightarrow> ustr \<Rightarrow> nat \<Rightarrow> bool" where
  "lit_match db ic w s i =
     (i + length w \<le> length s \<and> (\<forall>k<length w. atom_match db ic (Lit (w ! k)) (s ! (i + k))))"

text \<open>
  Replacing every run of characters satisfying \<open>P\<close> by one space: what
  \<open>re.sub(r'\s+', ' ', s)\<close> computes when \<open>P\<close> is the class \<open>\s\<close>.
\<close>

function collapse :: "(cp \<Rightarrow> bool) \<Rightarrow> ustr \<Rightarrow> ustr" where
  "collapse P [] = []"
| "collapse P (c # cs) = (if P c then 32 # collapse P (dropWhile P cs) else c # collapse P cs)"
  by pat_completeness auto
termination
  by (relation "measure (\<lambda>(P, s). length s)") (auto simp: length_dropWhile_le le_imp_less_Suc)

text \<open>
  A sanitized text, as the data model of the specification has it: only letters, digits,
  comma, period, slash, plus, minus and the space; no run of two or more spaces; no space
  at either end.  In \<open>spaced P\<close> every character satisfying \<open>P\<close> is a space that is not
  followed by another character satisfying \<open>P\<close>.
\<close>

definition allowed :: "cp \<Rightarrow> bool" where
  "allowed c = (ascii_letter c \<or> ascii_digit c \<or> c = 44 \<or> c = 46 \<or> c = 47 \<or> c = 43 \<or> c = 45)"

fun spaced :: "(cp \<Rightarrow> bool) \<Rightarrow> ustr \<Rightarrow> bool" where
  "spaced P [] = True"
| "spaced P (c # cs) = ((if P c then c = 32 \<and> (cs = [] \<or> \<not> P (hd cs)) else True) \<and> spaced P cs)"

definition sanitized :: "ustr \<Rightarrow> bool" where
  "sanitized t = ((\<forall>c \<in> set t. allowed c \<or> c = 32) \<and> spaced (\<lambda>c. c = 32) t \<and>
                  (t = [] \<or> (hd t \<noteq> 32 \<and> last t \<noteq> 32)))"

text \<open>
  A whole-word, case-insensitive occurrence of a token in a text, as the specification
  words it: the token, compared in upper case, bounded on each side by a non-alphanumeric
  character or an edge of the text.  A brand token is a non-empty string of upper-case
  letters and digits.
\<close>

definition alnum :: "cp \<Rightarrow> bool" where
  "alnum c = (ascii_letter c \<or> ascii_digit c)"

definition occurs_as_word :: "ustr \<Rightarrow> ustr \<Rightarrow> nat \<Rightarrow> bool" where
  "occurs_as_word t w i =
     (i + length w \<le> length t \<and> map ascii_upper (slice t i (i + length w)) = w \<and>
      (i = 0 \<or> \<not> alnum (t ! (i - 1))) \<and>
      (i + length w = length t \<or> \<not> alnum (t ! (i + length w))))"

definition brand_token :: "ustr \<Rightarrow> bool" where
  "brand_token w = (w \<noteq> [] \<and> list_all (\<lambda>c. (65 \<le> c \<and> c \<le> 90) \<or> ascii_digit c) w)"

text \<open>The units of \<open>(?:KG|G|L|ML|CL)\<close>, as strings.\<close>

definition unites :: "ustr list" where
  "unites = [str ''KG'', str ''G'', str ''L'', str ''ML'', str ''CL'']"

text \<open>The only change that decimal normalization makes to a character: a period may
  become a comma.\<close>

definition dot_to_comma :: "cp \<Rightarrow> cp \<Rightarrow> bool" where
  "dot_to_comma a b = (b = a \<or> (a = 46 \<and> b = 44))"

(*DEFS-END*)

section \<open>Deduplication and the pass of pattern 6\<close>

lemma set_first_occurrences: "set (first_occurrences xs) = set xs"
  by (induction xs rule: first_occurrences.induct) auto

lemma distinct_first_occurrences: "distinct (first_occurrences xs)"
  by (induction xs rule: first_occurrences.induct) (auto simp: set_first_occurrences)

lemma supprimer_doublons_acc:
  "supprimer_doublons acc xs = acc @ first_occurrences (filter (\<lambda>x. x \<notin> set acc) xs)"
proof (induction xs arbitrary: acc)
  case Nil
  show ?case by simp
next
  case (Cons x xs)
  show ?case
  proof (cases "x \<in> set acc")
    case True
    then show ?thesis using Cons.IH [of acc] by simp
  next
    case False
    have "filter (\<lambda>y. y \<notin> set (acc @ [x])) xs = filter (\<lambda>y. y \<noteq> x) (filter (\<lambda>y. y \<notin> set acc) xs)"
      by (induction xs) auto
    then show ?thesis using False Cons.IH [of "acc @ [x]"] by simp
  qed
qed

lemma ajouter_fractions_subseq:
  "\<exists>ys. subseq ys ms \<and> ajouter_fractions gvs ms = gvs @ ys"
proof (induction ms arbitrary: gvs)
  case Nil
  show ?case by simp
next
  case (Cons m ms)
  show ?case
  proof (cases "list_ex (\<lambda>gv. str_in m gv) gvs")
    case True
    from Cons.IH [of gvs] obtain ys where "subseq ys ms" "ajouter_fractions gvs ms = gvs @ ys"
      by blast
    then show ?thesis using True by (auto intro: subseq_Cons')
  next
    case False
    from Cons.IH [of "gvs @ [m]"] obtain ys
      where "subseq ys ms" "ajouter_fractions (gvs @ [m]) ms = (gvs @ [m]) @ ys"
      by blast
    then have "subseq (m # ys) (m # ms)" "ajouter_fractions gvs (m # ms) = gvs @ (m # ys)"
      using False by auto
    then show ?thesis by blast
  qed
qed

lemma starts_with_iff: "starts_with x y = (\<exists>q. y = x @ q)"
  by (induction x y rule: starts_with.induct) auto

lemma str_in_iff: "str_in x y = (\<exists>p q. y = p @ x @ q)"
proof (induction y)
  case Nil
  show ?case by auto
next
  case (Cons a y)
  have "(\<exists>p q. a # y = p @ x @ q) = ((\<exists>q. a # y = x @ q) \<or> (\<exists>p q. y = p @ x @ q))"
  proof
    assume "\<exists>p q. a # y = p @ x @ q"
    then obtain p q where pq: "a # y = p @ x @ q" by blast
    show "(\<exists>q. a # y = x @ q) \<or> (\<exists>p q. y = p @ x @ q)"
    proof (cases p)
      case Nil
      then show ?thesis using pq by auto
    next
      case (Cons b p')
      then have "y = p' @ x @ q" using pq by simp
      then show ?thesis by blast
    qed
  next
    assume "(\<exists>q. a # y = x @ q) \<or> (\<exists>p q. y = p @ x @ q)"
    then show "\<exists>p q. a # y = p @ x @ q"
    proof
      assume "\<exists>q. a # y = x @ q"
      then obtain q where "a # y = [] @ x @ q" by auto
      then show ?thesis by blast
    next
      assume "\<exists>p q. y = p @ x @ q"
      then obtain p q where "a # y = (a # p) @ x @ q" by auto
      then show ?thesis by blast
    qed
  qed
  then show ?case using Cons.IH by (simp add: starts_with_iff)
qed

lemma ajouter_fractions_append:
  "ajouter_fractions gvs (xs @ ys) = ajouter_fractions (ajouter_fractions gvs xs) ys"
  by (induction xs arbitrary: gvs) auto

lemma ajouter_fractions_step:
  "ajouter_fractions gvs [m] =
     (if \<exists>gv \<in> set gvs. \<exists>p q. gv = p @ m @ q then gvs else gvs @ [m])"
  by (simp add: list_ex_iff str_in_iff)

text \<open>
  C5.  For every label the quantity list has no duplicates; it is the list collected by
  the six passes with, of every token, only its first occurrence kept; and the collected
  list is made of the matches of rules 1, 2, 3, 4 and 5 in this order, followed by
  matches of rule 6 in the order in which rule 6 found them.
\<close>

theorem quantites_uniques_ordre_decouverte:
  "distinct (extraire_grammage_volume db texte) \<and>
   extraire_grammage_volume db texte = first_occurrences (grammages_volumes db texte) \<and>
   (\<exists>ys. subseq ys (regle6 db (upper db texte)) \<and>
         grammages_volumes db texte =
           regle1 db (upper db texte) @ regle2 db (upper db texte) @ regle3 db (upper db texte) @
           regle4 db (upper db texte) @ regle5 db (upper db texte) @ ys)"
proof -
  have eq: "extraire_grammage_volume db texte = first_occurrences (grammages_volumes db texte)"
    by (simp add: extraire_grammage_volume_def supprimer_doublons_acc)
  obtain ys where ys: "subseq ys (regle6 db (upper db texte))"
      "ajouter_fractions (regles_1_a_5 db (upper db texte)) (regle6 db (upper db texte)) =
         regles_1_a_5 db (upper db texte) @ ys"
    using ajouter_fractions_subseq by blast
  have "grammages_volumes db texte =
          regle1 db (upper db texte) @ regle2 db (upper db texte) @ regle3 db (upper db texte) @
          regle4 db (upper db texte) @ regle5 db (upper db texte) @ ys"
    using ys(2) by (simp add: grammages_volumes_def regles_1_a_5_def Let_def)
  with ys(1) eq show ?thesis
    by (auto simp: distinct_first_occurrences)
qed

text \<open>
  C6.  When rule 6 matches the bare fraction \<open>m\<close>, after the matches \<open>pre\<close> and before the
  matches \<open>post\<close>, the running list at that moment (built by rules 1 to 5 and the earlier
  matches of rule 6) is extended by \<open>m\<close> if \<open>m\<close> is a substring of none of its tokens, and
  is left as it is otherwise; the remaining matches are then processed from that list.
\<close>

theorem fraction_nue_si_non_contenue:
  assumes "regle6 db (upper db texte) = pre @ m # post"
  shows "ajouter_fractions (regles_1_a_5 db (upper db texte)) (pre @ [m]) =
           (if \<exists>gv \<in> set (ajouter_fractions (regles_1_a_5 db (upper db texte)) pre).
                 \<exists>p q. gv = p @ m @ q
            then ajouter_fractions (regles_1_a_5 db (upper db texte)) pre
            else ajouter_fractions (regles_1_a_5 db (upper db texte)) pre @ [m]) \<and>
         grammages_volumes db texte =
           ajouter_fractions (ajouter_fractions (regles_1_a_5 db (upper db texte)) (pre @ [m])) post"
proof -
  have "pre @ m # post = (pre @ [m]) @ post" by simp
  then have "grammages_volumes db texte =
      ajouter_fractions (ajouter_fractions (regles_1_a_5 db (upper db texte)) (pre @ [m])) post"
    using assms by (simp only: grammages_volumes_def Let_def ajouter_fractions_append)
  then show ?thesis
    by (simp only: ajouter_fractions_append ajouter_fractions_step simp_thms)
qed

theorem fraction_nue_si_non_contenue_witness:
  "regle6 ucd_latin1 (upper ucd_latin1 (str ''1/2 kg 3/4'')) = [] @ str ''1/2'' # [str ''3/4''] \<and>
   ajouter_fractions (regles_1_a_5 ucd_latin1 (upper ucd_latin1 (str ''1/2 kg 3/4''))) ([] @ [str ''1/2''])
     = [str ''1/2 KG''] \<and>
   grammages_volumes ucd_latin1 (str ''1/2 kg 3/4'') = [str ''1/2 KG'', str ''3/4'']"
proof -
  have h: "regle6 ucd_latin1 (upper ucd_latin1 (str ''1/2 kg 3/4'')) = [] @ str ''1/2'' # [str ''3/4'']"
    by code_simp
  have r: "regles_1_a_5 ucd_latin1 (upper ucd_latin1 (str ''1/2 kg 3/4'')) = [str ''1/2 KG'']"
    by code_simp
  have a: "ajouter_fractions [str ''1/2 KG''] [] = [str ''1/2 KG'']"
          "ajouter_fractions [str ''1/2 KG''] [str ''3/4''] = [str ''1/2 KG'', str ''3/4'']"
          "\<exists>gv \<in> set [str ''1/2 KG'']. \<exists>p q. gv = p @ str ''1/2'' @ q"
    by (simp_all add: str_in_iff [symmetric]) code_simp+
  show ?thesis
    using fraction_nue_si_non_contenue [OF h] h
    by (simp only: r a if_True append_Nil simp_thms)
qed

section \<open>Properties of the matcher\<close>

lemma le_length_takeWhile:
  "(k \<le> length (takeWhile P xs)) = (k \<le> length xs \<and> (\<forall>j<k. P (xs ! j)))"
proof (induction xs arbitrary: k)
  case Nil
  show ?case by auto
next
  case (Cons x xs)
  show ?case
  proof (cases k)
    case 0
    then show ?thesis by simp
  next
    case (Suc k')
    show ?thesis
    proof (cases "P x")
      case True
      have "(\<forall>j<Suc k'. P ((x # xs) ! j)) = (\<forall>j<k'. P (xs ! j))"
        using True by (auto simp: less_Suc_eq_0_disj)
      then show ?thesis using Suc True Cons.IH [of k'] by simp
    next
      case False
      then show ?thesis using Suc by auto
    qed
  qed
qed

lemma le_run:
  "(k \<le> run db ic a s i) = (k = 0 \<or> (i + k \<le> length s \<and> (\<forall>j<k. atom_match db ic a (s ! (i + j)))))"
proof (cases "k = 0")
  case True
  then show ?thesis by simp
next
  case False
  have "(k \<le> run db ic a s i) = (k \<le> length s - i \<and> (\<forall>j<k. atom_match db ic a (drop i s ! j)))"
    by (simp add: run_def le_length_takeWhile)
  also have "\<dots> = (i + k \<le> length s \<and> (\<forall>j<k. atom_match db ic a (s ! (i + j))))"
    using False by (cases "i + k \<le> length s") auto
  finally show ?thesis using False by simp
qed

lemma run_stop:
  "i + run db ic a s i < length s \<Longrightarrow> \<not> atom_match db ic a (s ! (i + run db ic a s i))"
proof -
  assume lt: "i + run db ic a s i < length s"
  have "run db ic a s i < length (drop i s)" using lt by simp
  then have "\<not> atom_match db ic a (drop i s ! run db ic a s i)"
    unfolding run_def by (rule nth_length_takeWhile)
  then show ?thesis using lt by simp
qed

lemma in_rmatch_One:
  "(x \<in> set (rmatch db ic s (One a) st)) =
     (fst st < length s \<and> atom_match db ic a (s ! fst st) \<and> x = (Suc (fst st), snd st))"
  by auto

lemma in_rmatch_Rep:
  "(x \<in> set (rmatch db ic s (Rep a lo hi) st)) =
     (\<exists>k. x = (fst st + k, snd st) \<and> lo \<le> k \<and> k \<le> run db ic a s (fst st) \<and>
          (case hi of None \<Rightarrow> True | Some h \<Rightarrow> k \<le> h))"
  by (cases hi) (auto simp: run_def Let_def)

lemma in_rmatch_WordB:
  "(x \<in> set (rmatch db ic s WordB st)) = (at_boundary db s (fst st) \<and> x = st)"
  by auto

lemma in_rmatch_Bol:
  "(x \<in> set (rmatch db ic s Bol st)) = (fst st = 0 \<and> x = st)"
  by auto

lemma in_rmatch_Eps: "(x \<in> set (rmatch db ic s Eps st)) = (x = st)"
  by auto

lemma in_rmatch_Seq:
  "(x \<in> set (rmatch db ic s (Seq a b) st)) =
     (\<exists>y. y \<in> set (rmatch db ic s a st) \<and> x \<in> set (rmatch db ic s b y))"
  by auto

lemma in_rmatch_Alt:
  "(x \<in> set (rmatch db ic s (Alt a b) st)) =
     (x \<in> set (rmatch db ic s a st) \<or> x \<in> set (rmatch db ic s b st))"
  by auto

lemma in_rmatch_Grp:
  "(x \<in> set (rmatch db ic s (Grp r) st)) =
     (\<exists>y. y \<in> set (rmatch db ic s r st) \<and> x = (fst y, snd y @ [(fst st, fst y)]))"
  by force

lemma lit_match_Nil: "lit_match db ic [] s i = (i \<le> length s)"
  by (simp add: lit_match_def)

lemma lit_match_Cons:
  "lit_match db ic (c # w) s i =
     (i < length s \<and> atom_match db ic (Lit c) (s ! i) \<and> lit_match db ic w s (Suc i))"
proof -
  have "(\<forall>k<Suc (length w). atom_match db ic (Lit ((c # w) ! k)) (s ! (i + k))) =
        (atom_match db ic (Lit c) (s ! i) \<and> (\<forall>k<length w. atom_match db ic (Lit (w ! k)) (s ! (Suc i + k))))"
    by (auto simp: less_Suc_eq_0_disj)
  then show ?thesis by (auto simp: lit_match_def)
qed

lemma rmatch_lits:
  "fst st \<le> length s \<Longrightarrow>
   rmatch db ic s (lits w) st =
     (if lit_match db ic w s (fst st) then [(fst st + length w, snd st)] else [])"
proof (induction w arbitrary: st)
  case Nil
  then show ?case by (simp add: lits_def seqs_def lit_match_Nil)
next
  case (Cons c w)
  have l: "lits (c # w) = Seq (One (Lit c)) (lits w)"
    by (simp add: lits_def seqs_def)
  show ?case
  proof (cases "fst st < length s \<and> atom_match db ic (Lit c) (s ! fst st)")
    case True
    then have "rmatch db ic s (lits (c # w)) st = rmatch db ic s (lits w) (Suc (fst st), snd st)"
      by (simp add: l)
    also have "\<dots> = (if lit_match db ic w s (Suc (fst st)) then [(Suc (fst st) + length w, snd st)] else [])"
      using True Cons.IH [of "(Suc (fst st), snd st)"] by simp
    finally show ?thesis using True by (simp add: lit_match_Cons)
  next
    case False
    then show ?thesis by (auto simp add: l lit_match_Cons)
  qed
qed

lemma rmatch_fst_ge: "x \<in> set (rmatch db ic s r st) \<Longrightarrow> fst st \<le> fst x"
  by (induction r arbitrary: st x) (fastforce simp: Let_def split: if_splits option.splits)+

lemmas in_rmatch = in_rmatch_One in_rmatch_Rep in_rmatch_WordB in_rmatch_Bol in_rmatch_Eps
  in_rmatch_Seq in_rmatch_Alt in_rmatch_Grp

declare rmatch.simps [simp del]

lemma rmatch_fst_le:
  "x \<in> set (rmatch db ic s r st) \<Longrightarrow> fst st \<le> length s \<Longrightarrow> fst x \<le> length s"
proof (induction r arbitrary: st x)
  case (Rep a lo hi)
  then obtain k where k: "x = (fst st + k, snd st)" "k \<le> run db ic a s (fst st)"
    by (auto simp: in_rmatch_Rep)
  then show ?case using Rep.prems(2) by (auto simp: le_run)
next
  case (Seq a b)
  from Seq.prems(1) obtain y where y: "y \<in> set (rmatch db ic s a st)" "x \<in> set (rmatch db ic s b y)"
    by (auto simp: in_rmatch_Seq)
  from Seq.IH(1) [OF y(1) Seq.prems(2)] have "fst y \<le> length s" .
  from Seq.IH(2) [OF y(2) this] show ?case .
qed (auto simp: in_rmatch split: if_splits)

declare finditer.simps [simp del]

lemma finditer_sound:
  "(p, m) \<in> set (finditer db ic r s pos) \<Longrightarrow>
     pos \<le> p \<and> p \<le> length s \<and> match_at db ic r s p = Some m"
proof (induction db ic r s pos rule: finditer.induct)
  case (1 db ic r s pos)
  show ?case
  proof (cases "length s < pos")
    case True
    then show ?thesis using "1.prems" by (simp add: finditer.simps)
  next
    case False
    show ?thesis
    proof (cases "match_at db ic r s pos")
      case None
      then have "(p, m) \<in> set (finditer db ic r s (Suc pos))"
        using "1.prems" False by (simp add: finditer.simps [of db ic r s pos])
      from "1.IH"(1) [OF False None this] show ?thesis by simp
    next
      case (Some m0)
      let ?next = "if pos < fst m0 then fst m0 else Suc pos"
      have "(p, m) = (pos, m0) \<or> (p, m) \<in> set (finditer db ic r s ?next)"
        using "1.prems" False Some by (simp add: finditer.simps [of db ic r s pos])
      then show ?thesis
      proof
        assume "(p, m) = (pos, m0)"
        then show ?thesis using False Some by simp
      next
        assume "(p, m) \<in> set (finditer db ic r s ?next)"
        from "1.IH"(2) [OF False Some this] show ?thesis by (auto split: if_splits)
      qed
    qed
  qed
qed

lemma finditer_complete:
  "pos \<le> p \<Longrightarrow> p \<le> length s \<Longrightarrow> match_at db ic r s p = Some m \<Longrightarrow>
   (\<forall>q \<in> set (finditer db ic r s pos). \<not> (fst q < p \<and> p < fst (snd q))) \<Longrightarrow>
   (p, m) \<in> set (finditer db ic r s pos)"
proof (induction db ic r s pos rule: finditer.induct)
  case (1 db ic r s pos)
  have False: "\<not> length s < pos" using "1.prems" by simp
  show ?case
  proof (cases "match_at db ic r s pos")
    case None
    then have eq: "finditer db ic r s pos = finditer db ic r s (Suc pos)"
      using False by (simp add: finditer.simps [of db ic r s pos])
    have "pos \<noteq> p" using None "1.prems"(3) by auto
    then have "Suc pos \<le> p" using "1.prems"(1) by simp
    from "1.IH"(1) [OF False None this "1.prems"(2) "1.prems"(3)] "1.prems"(4) eq
    show ?thesis by simp
  next
    case (Some m0)
    let ?next = "if pos < fst m0 then fst m0 else Suc pos"
    have eq: "finditer db ic r s pos = (pos, m0) # finditer db ic r s ?next"
      using False Some by (simp add: finditer.simps [of db ic r s pos])
    show ?thesis
    proof (cases "p = pos")
      case True
      then show ?thesis using eq Some "1.prems"(3) by simp
    next
      case neq: False
      then have lt: "pos < p" using "1.prems"(1) by simp
      have "\<not> (pos < p \<and> p < fst m0)" using "1.prems"(4) eq by simp
      then have "?next \<le> p" using lt by simp
      from "1.IH"(2) [OF False Some this "1.prems"(2) "1.prems"(3)] "1.prems"(4) eq
      show ?thesis by simp
    qed
  qed
qed

lemma finditer_sorted:
  "sorted_wrt (\<lambda>a b. fst a < fst b \<and> fst (snd a) \<le> fst b) (finditer db ic r s pos)"
proof (induction db ic r s pos rule: finditer.induct)
  case (1 db ic r s pos)
  show ?case
  proof (cases "length s < pos")
    case True
    then show ?thesis by (simp add: finditer.simps)
  next
    case False
    show ?thesis
    proof (cases "match_at db ic r s pos")
      case None
      then show ?thesis using "1.IH"(1) [OF False None] False
        by (simp add: finditer.simps [of db ic r s pos])
    next
      case (Some m0)
      let ?next = "if pos < fst m0 then fst m0 else Suc pos"
      have eq: "finditer db ic r s pos = (pos, m0) # finditer db ic r s ?next"
        using False Some by (simp add: finditer.simps [of db ic r s pos])
      have "\<forall>q \<in> set (finditer db ic r s ?next). pos < fst q \<and> fst m0 \<le> fst q"
      proof
        fix q assume "q \<in> set (finditer db ic r s ?next)"
        then have "(fst q, snd q) \<in> set (finditer db ic r s ?next)" by simp
        from finditer_sound [OF this] show "pos < fst q \<and> fst m0 \<le> fst q"
          by (auto split: if_splits)
      qed
      then show ?thesis using "1.IH"(2) [OF False Some] eq by simp
    qed
  qed
qed

lemma slice_split:
  "a \<le> b \<Longrightarrow> b \<le> c \<Longrightarrow> slice s a c = slice s a b @ slice s b c"
proof -
  assume ab: "a \<le> b" and bc: "b \<le> c"
  have "take (c - a) (drop a s) = take (b - a) (drop a s) @ take (c - b) (drop (b - a) (drop a s))"
    using ab bc take_add [of "b - a" "c - b" "drop a s"] by simp
  then show ?thesis using ab by (simp add: slice_def)
qed

lemma sub_pieces_shift:
  "pos \<le> pos' \<Longrightarrow> (\<forall>q \<in> set L. pos' \<le> fst q) \<Longrightarrow>
   sub_pieces s t pos L = slice s pos pos' @ sub_pieces s t pos' L"
proof (cases L)
  case Nil
  assume "pos \<le> pos'"
  then have "drop pos s = take (pos' - pos) (drop pos s) @ drop pos' s"
    using append_take_drop_id [of "pos' - pos" "drop pos s"] by simp
  then show ?thesis using Nil by (simp add: slice_def)
next
  case (Cons q L')
  assume "pos \<le> pos'" "\<forall>q \<in> set L. pos' \<le> fst q"
  then have "slice s pos (fst q) = slice s pos pos' @ slice s pos' (fst q)"
    using Cons slice_split [of pos pos' "fst q" s] by simp
  then show ?thesis using Cons by (cases q) simp
qed

section \<open>Sanitization\<close>

lemma match_at_One:
  "match_at db ic (One a) s i =
     (if i < length s \<and> atom_match db ic a (s ! i) then Some (Suc i, []) else None)"
  by (simp add: match_at_def rmatch.simps)

lemma match_at_Rep1:
  "match_at db ic (Rep a (Suc 0) None) s i =
     (if 0 < run db ic a s i then Some (i + run db ic a s i, []) else None)"
proof (cases "0 < run db ic a s i")
  case True
  then have "rev [1 ..< Suc (run db ic a s i)] = run db ic a s i # rev [1 ..< run db ic a s i]"
    by simp
  then show ?thesis using True
    by (simp add: match_at_def rmatch.simps run_def [symmetric] Let_def del: upt_Suc)
next
  case False
  then show ?thesis
    by (simp add: match_at_def rmatch.simps run_def [symmetric] Let_def)
qed

lemma finditer_ge: "q \<in> set (finditer db ic r s pos) \<Longrightarrow> pos \<le> fst q"
  using finditer_sound [of "fst q" "snd q" db ic r s pos] by simp

lemma finditer_beyond: "length s < pos \<Longrightarrow> finditer db ic r s pos = []"
  by (simp add: finditer.simps)

lemma finditer_None:
  "pos \<le> length s \<Longrightarrow> match_at db ic r s pos = None \<Longrightarrow>
   finditer db ic r s pos = finditer db ic r s (Suc pos)"
  by (simp add: finditer.simps [of db ic r s pos])

lemma finditer_Some:
  "pos \<le> length s \<Longrightarrow> match_at db ic r s pos = Some m \<Longrightarrow>
   finditer db ic r s pos = (pos, m) # finditer db ic r s (if pos < fst m then fst m else Suc pos)"
  by (simp add: finditer.simps [of db ic r s pos])

lemma sub_pieces_skip:
  assumes "pos < length s"
  shows "sub_pieces s t pos (finditer db ic r s (Suc pos)) =
           s ! pos # sub_pieces s t (Suc pos) (finditer db ic r s (Suc pos))"
proof -
  have "\<forall>q \<in> set (finditer db ic r s (Suc pos)). Suc pos \<le> fst q"
    using finditer_ge by blast
  then have "sub_pieces s t pos (finditer db ic r s (Suc pos)) =
      slice s pos (Suc pos) @ sub_pieces s t (Suc pos) (finditer db ic r s (Suc pos))"
    using sub_pieces_shift [of pos "Suc pos"] by simp
  moreover have "slice s pos (Suc pos) = [s ! pos]"
    using assms by (simp add: slice_def take_Suc_conv_app_nth)
  ultimately show ?thesis by simp
qed

lemma sub_pieces_One:
  "pos \<le> length s \<Longrightarrow>
   sub_pieces s [RChar c0] pos (finditer db ic (One a) s pos) =
     map (\<lambda>c. if atom_match db ic a c then c0 else c) (drop pos s)"
proof (induction db ic "One a" s pos rule: finditer.induct)
  case (1 db ic s pos)
  let ?f = "\<lambda>c. if atom_match db ic a c then c0 else c"
  show ?case
  proof (cases "pos < length s")
    case False
    then have "pos = length s" using "1.prems" by simp
    then show ?thesis
      by (simp add: finditer_None match_at_One finditer_beyond)
  next
    case lt: True
    have d: "drop pos s = s ! pos # drop (Suc pos) s"
      using lt by (simp add: Cons_nth_drop_Suc)
    have nb: "\<not> length s < pos" using lt by simp
    show ?thesis
    proof (cases "atom_match db ic a (s ! pos)")
      case True
      then have m: "match_at db ic (One a) s pos = Some (Suc pos, [])"
        using lt by (simp add: match_at_One)
      have ih: "sub_pieces s [RChar c0] (Suc pos) (finditer db ic (One a) s (Suc pos)) =
                  map ?f (drop (Suc pos) s)"
        using "1.hyps"(2) [OF nb m] lt by simp
      have "finditer db ic (One a) s pos = (pos, (Suc pos, [])) # finditer db ic (One a) s (Suc pos)"
        using finditer_Some [OF "1.prems" m] by simp
      then show ?thesis using ih True d by (simp add: slice_def expand_def)
    next
      case False
      then have m: "match_at db ic (One a) s pos = None"
        by (simp add: match_at_One)
      have ih: "sub_pieces s [RChar c0] (Suc pos) (finditer db ic (One a) s (Suc pos)) =
                  map ?f (drop (Suc pos) s)"
        using "1.hyps"(1) [OF nb m] lt by simp
      show ?thesis
        using finditer_None [OF "1.prems" m] sub_pieces_skip [OF lt] ih False d by simp
    qed
  qed
qed

lemma re_sub_One:
  "re_sub db ic (One a) [RChar c0] s = map (\<lambda>c. if atom_match db ic a c then c0 else c) s"
  using sub_pieces_One [of 0 s c0 db ic a] by (simp add: re_sub_def)

lemma run_pos: "(0 < run db ic a s i) = (i < length s \<and> atom_match db ic a (s ! i))"
  using le_run [of 1 db ic a s i] by auto

lemma drop_run: "drop (i + run db ic a s i) s = dropWhile (atom_match db ic a) (drop i s)"
  by (simp add: run_def dropWhile_eq_drop add.commute)

lemma sub_pieces_Rep1:
  "pos \<le> length s \<Longrightarrow>
   sub_pieces s [RChar 32] pos (finditer db ic (Rep a 1 None) s pos) =
     collapse (atom_match db ic a) (drop pos s)"
proof (induction db ic "Rep a 1 None" s pos rule: finditer.induct)
  case (1 db ic s pos)
  let ?P = "atom_match db ic a"
  show ?case
  proof (cases "pos < length s")
    case False
    then have e: "pos = length s" using "1.prems" by simp
    then have "match_at db ic (Rep a 1 None) s pos = None"
      by (simp add: match_at_Rep1 run_pos)
    then have "finditer db ic (Rep a 1 None) s pos = []"
      using finditer_None [OF "1.prems"] e by (simp add: finditer_beyond)
    then show ?thesis using e by simp
  next
    case lt: True
    have d: "drop pos s = s ! pos # drop (Suc pos) s"
      using lt by (simp add: Cons_nth_drop_Suc)
    have nb: "\<not> length s < pos" using lt by simp
    show ?thesis
    proof (cases "?P (s ! pos)")
      case True
      let ?e = "pos + run db ic a s pos"
      have r1: "0 < run db ic a s pos" using True lt by (simp add: run_pos)
      then have m: "match_at db ic (Rep a 1 None) s pos = Some (?e, [])"
        by (simp add: match_at_Rep1)
      have e_le: "?e \<le> length s" using r1 le_run [of "run db ic a s pos" db ic a s pos] by auto
      have e_gt: "pos < ?e" using r1 by simp
      have ih: "sub_pieces s [RChar 32] ?e (finditer db ic (Rep a 1 None) s ?e) =
                  collapse ?P (drop ?e s)"
        using "1.hyps"(2) [OF nb m] e_le e_gt by simp
      have f: "finditer db ic (Rep a 1 None) s pos = (pos, (?e, [])) # finditer db ic (Rep a 1 None) s ?e"
        using finditer_Some [OF "1.prems" m] e_gt by simp
      have dw: "drop ?e s = dropWhile ?P (drop (Suc pos) s)"
        using drop_run [of pos db ic a s] d True by simp
      show ?thesis using f ih True d dw by (simp add: slice_def expand_def)
    next
      case False
      then have m: "match_at db ic (Rep a 1 None) s pos = None"
        by (simp add: match_at_Rep1 run_pos)
      have ih: "sub_pieces s [RChar 32] (Suc pos) (finditer db ic (Rep a 1 None) s (Suc pos)) =
                  collapse ?P (drop (Suc pos) s)"
        using "1.hyps"(1) [OF nb m] lt by simp
      show ?thesis
        using finditer_None [OF "1.prems" m] sub_pieces_skip [OF lt] ih False d by simp
    qed
  qed
qed

lemma re_sub_spaces:
  "re_sub db False pat_spaces [RChar 32] s = collapse (isspace db) s"
proof -
  have "atom_match db False space = isspace db"
    by (rule ext) (simp add: space_def)
  then show ?thesis
    using sub_pieces_Rep1 [of 0 s db False space] by (simp add: re_sub_def pat_spaces_def)
qed

lemma spaced_cong: "(\<forall>c \<in> set t. P c = Q c) \<Longrightarrow> spaced P t = spaced Q t"
proof (induction t)
  case Nil
  show ?case by simp
next
  case (Cons c cs)
  then have "spaced P cs = spaced Q cs" by simp
  moreover have "P c = Q c" using Cons.prems by simp
  moreover have "cs \<noteq> [] \<Longrightarrow> P (hd cs) = Q (hd cs)" using Cons.prems by (cases cs) auto
  ultimately show ?case by auto
qed

lemma collapse_Nil_iff: "(collapse P z = []) = (z = [])"
  by (cases z) auto

lemma hd_collapse: "z \<noteq> [] \<Longrightarrow> \<not> P (hd z) \<Longrightarrow> hd (collapse P z) = hd z"
  by (cases z) auto

lemma hd_dropWhile_not: "dropWhile P cs \<noteq> [] \<Longrightarrow> \<not> P (hd (dropWhile P cs))"
  using hd_dropWhile [of P cs] by simp

lemma collapse_spaced: "spaced P (collapse P z)"
proof (induction P z rule: collapse.induct)
  case (1 P)
  show ?case by simp
next
  case (2 P c cs)
  show ?case
  proof (cases "P c")
    case True
    let ?d = "dropWhile P cs"
    have "collapse P ?d = [] \<or> \<not> P (hd (collapse P ?d))"
    proof (cases "?d = []")
      case True
      show ?thesis unfolding True by simp
    next
      case False
      then have "\<not> P (hd ?d)" by (rule hd_dropWhile_not)
      then show ?thesis using False by (simp add: hd_collapse)
    qed
    then show ?thesis using True "2.IH"(1) by auto
  next
    case False
    then show ?thesis using "2.IH"(2) by simp
  qed
qed

lemma collapse_fix: "spaced P t \<Longrightarrow> collapse P t = t"
proof (induction t)
  case Nil
  show ?case by simp
next
  case (Cons c cs)
  then have ih: "collapse P cs = cs" by simp
  show ?case
  proof (cases "P c")
    case True
    then have "c = 32" "cs = [] \<or> \<not> P (hd cs)" using Cons.prems by auto
    then have "dropWhile P cs = cs" by (cases cs) auto
    then show ?thesis using True ih \<open>c = 32\<close> by simp
  next
    case False
    then show ?thesis using ih by simp
  qed
qed

lemma set_collapse: "x \<in> set (collapse P z) \<Longrightarrow> x = 32 \<or> (x \<in> set z \<and> \<not> P x)"
proof (induction P z rule: collapse.induct)
  case (1 P)
  then show ?case by simp
next
  case (2 P c cs)
  show ?case
  proof (cases "P c")
    case True
    then have "x = 32 \<or> x \<in> set (collapse P (dropWhile P cs))" using "2.prems" by simp
    then show ?thesis
    proof
      assume "x = 32" then show ?thesis by simp
    next
      assume "x \<in> set (collapse P (dropWhile P cs))"
      from "2.IH"(1) [OF True this] show ?thesis
        using set_dropWhileD [of x P cs] by auto
    qed
  next
    case False
    then have "x = c \<or> x \<in> set (collapse P cs)" using "2.prems" by simp
    then show ?thesis using False "2.IH"(2) [OF False] by auto
  qed
qed

lemma spaced_append: "spaced P (xs @ ys) \<Longrightarrow> spaced P xs \<and> spaced P ys"
proof (induction xs)
  case Nil
  then show ?case by simp
next
  case (Cons c cs)
  then have "spaced P cs \<and> spaced P ys" by simp
  moreover have "cs \<noteq> [] \<Longrightarrow> hd (cs @ ys) = hd cs" by simp
  ultimately show ?case using Cons.prems by (cases "cs = []") (auto split: if_splits)
qed

lemma dropWhile_hd_id: "xs \<noteq> [] \<Longrightarrow> \<not> P (hd xs) \<Longrightarrow> dropWhile P xs = xs"
  by (cases xs) auto

lemma strip_suffix: "dropWhile (isspace db) w = strip db w @ rev (takeWhile (isspace db) (rev (dropWhile (isspace db) w)))"
proof -
  let ?d = "dropWhile (isspace db) w"
  have "rev (takeWhile (isspace db) (rev ?d) @ dropWhile (isspace db) (rev ?d)) = rev (rev ?d)"
    by (simp only: takeWhile_dropWhile_id)
  then show ?thesis by (simp only: rev_append rev_rev_ident strip_def)
qed

lemma strip_prefix_suffix:
  "\<exists>a b. w = a @ strip db w @ b"
proof -
  have 1: "w = takeWhile (isspace db) w @ dropWhile (isspace db) w" by simp
  let ?d = "dropWhile (isspace db) w"
  have 2: "?d = strip db w @ rev (takeWhile (isspace db) (rev ?d))"
    by (rule strip_suffix)
  show ?thesis using 1 2 by metis
qed

lemma spaced_strip: "spaced (isspace db) w \<Longrightarrow> spaced (isspace db) (strip db w)"
proof -
  assume a: "spaced (isspace db) w"
  obtain x y where "w = x @ strip db w @ y" using strip_prefix_suffix by blast
  then have "spaced (isspace db) (x @ strip db w @ y)" using a by simp
  then show ?thesis using spaced_append by blast
qed

lemma set_strip: "set (strip db w) \<subseteq> set w"
proof -
  obtain x y where "w = x @ strip db w @ y" using strip_prefix_suffix by blast
  then have "set w = set x \<union> set (strip db w) \<union> set y" by (metis set_append Un_assoc)
  then show ?thesis by auto
qed

lemma strip_ends:
  "strip db w = [] \<or> (\<not> isspace db (hd (strip db w)) \<and> \<not> isspace db (last (strip db w)))"
proof (cases "strip db w = []")
  case True
  then show ?thesis by simp
next
  case False
  let ?d = "dropWhile (isspace db) w"
  let ?r = "dropWhile (isspace db) (rev ?d)"
  have r: "?r \<noteq> []" using False by (simp add: strip_def)
  then have hr: "\<not> isspace db (hd ?r)" by (rule hd_dropWhile_not)
  have "last (strip db w) = hd ?r" using r by (simp add: strip_def last_rev)
  then have l: "\<not> isspace db (last (strip db w))" using hr by simp
  have d: "?d \<noteq> []"
  proof
    assume e: "?d = []"
    have "?r = []" unfolding e by simp
    then show False using r by simp
  qed
  then have hd_d: "\<not> isspace db (hd ?d)" by (rule hd_dropWhile_not)
  obtain b where b: "?d = strip db w @ b"
    using strip_suffix [of db w] by blast
  have "hd ?d = hd (strip db w)" using b False by (metis hd_append2)
  then show ?thesis using hd_d l by simp
qed

lemma strip_fix:
  "t = [] \<or> (\<not> isspace db (hd t) \<and> \<not> isspace db (last t)) \<Longrightarrow> strip db t = t"
proof (cases "t = []")
  case True
  then show ?thesis by (simp add: strip_def)
next
  case False
  assume "t = [] \<or> (\<not> isspace db (hd t) \<and> \<not> isspace db (last t))"
  then have h: "\<not> isspace db (hd t)" and l: "\<not> isspace db (last t)" using False by auto
  have 1: "dropWhile (isspace db) t = t" using h False by (rule_tac dropWhile_hd_id)
  have "rev t \<noteq> []" "hd (rev t) = last t" using False by (simp_all add: hd_rev)
  then have 2: "dropWhile (isspace db) (rev t) = rev t" using l dropWhile_hd_id [of "rev t" "isspace db"] by simp
  show ?thesis by (simp add: strip_def 1 2)
qed

lemma kept_iff:
  "(\<not> atom_match db False (NotIn [CRange 65 90, CRange 97 122, CRange 48 57, CSpace,
       CChar 44, CChar 46, CChar 47, CChar 88, CChar 43, CChar 45]) c) =
   (allowed c \<or> isspace db c)"
  by (auto simp: allowed_def ascii_letter_def ascii_digit_def)

lemma sanitize_eq:
  "supprimer_accents_et_caracteres_speciaux db x =
     strip db (collapse (isspace db)
       (map (\<lambda>c. if allowed c \<or> isspace db c then c else 32)
         (filter (\<lambda>c. \<not> category_Mn db c) (normalize_NFD db x))))"
proof -
  have "(\<lambda>c. if atom_match db False (NotIn [CRange 65 90, CRange 97 122, CRange 48 57, CSpace,
       CChar 44, CChar 46, CChar 47, CChar 88, CChar 43, CChar 45]) c then 32 else c) =
        (\<lambda>c. if allowed c \<or> isspace db c then c else 32)"
    using kept_iff [of db] by auto
  then show ?thesis
    by (simp only: supprimer_accents_et_caracteres_speciaux_def Let_def pat_disallowed_def
        re_sub_One re_sub_spaces)
qed

lemma allowed_ascii: "allowed c \<Longrightarrow> c < 128 \<and> c \<noteq> 32 \<and> \<not> ascii_space c"
  by (auto simp: allowed_def ascii_letter_def ascii_digit_def ascii_space_def)

lemma ucd_ascii_space32: "ucd_ascii db \<Longrightarrow> isspace db 32"
  by (simp add: ucd_ascii_def ascii_space_def)

lemma ucd_ascii_allowed: "ucd_ascii db \<Longrightarrow> allowed c \<Longrightarrow> \<not> isspace db c \<and> \<not> category_Mn db c"
  using allowed_ascii [of c] by (simp add: ucd_ascii_def)

lemma sanitize_sanitized:
  assumes db: "ucd_ascii db"
  shows "sanitized (supprimer_accents_et_caracteres_speciaux db x)"
proof -
  let ?P = "isspace db"
  let ?z = "map (\<lambda>c. if allowed c \<or> ?P c then c else 32)
              (filter (\<lambda>c. \<not> category_Mn db c) (normalize_NFD db x))"
  let ?w = "collapse ?P ?z"
  let ?y = "strip db ?w"
  have y: "supprimer_accents_et_caracteres_speciaux db x = ?y" by (rule sanitize_eq)
  have z: "\<forall>c \<in> set ?z. allowed c \<or> ?P c"
    using ucd_ascii_space32 [OF db] by auto
  have w: "\<forall>c \<in> set ?w. allowed c \<or> c = 32"
  proof
    fix c assume "c \<in> set ?w"
    then have "c = 32 \<or> (c \<in> set ?z \<and> \<not> ?P c)" by (rule set_collapse)
    then show "allowed c \<or> c = 32" using z by blast
  qed
  have ys: "\<forall>c \<in> set ?y. allowed c \<or> c = 32" using w set_strip [of db ?w] by blast
  have sp: "spaced ?P ?y" using collapse_spaced [of ?P ?z] by (rule spaced_strip)
  have eqP: "\<forall>c \<in> set ?y. ?P c = (c = 32)"
    using ys ucd_ascii_space32 [OF db] ucd_ascii_allowed [OF db] allowed_ascii by blast
  have sp32: "spaced (\<lambda>c. c = 32) ?y"
    using sp spaced_cong [OF eqP] by simp
  have ends: "?y = [] \<or> (hd ?y \<noteq> 32 \<and> last ?y \<noteq> 32)"
    using strip_ends [of db ?w] ucd_ascii_space32 [OF db] by auto
  show ?thesis unfolding y sanitized_def using ys sp32 ends by blast
qed

lemma sanitized_fixpoint:
  assumes db: "ucd_ascii db" and t: "sanitized t"
  shows "supprimer_accents_et_caracteres_speciaux db t = t"
proof -
  let ?P = "isspace db"
  have el: "\<forall>c \<in> set t. allowed c \<or> c = 32" using t by (simp add: sanitized_def)
  have lt: "\<forall>c \<in> set t. c < 128" using el allowed_ascii by auto
  have 1: "normalize_NFD db t = t" using db lt by (simp add: ucd_ascii_def)
  have "\<forall>c \<in> set t. \<not> category_Mn db c" using db lt by (simp add: ucd_ascii_def)
  then have 2: "filter (\<lambda>c. \<not> category_Mn db c) t = t" by (simp add: filter_id_conv)
  have "\<forall>c \<in> set t. allowed c \<or> ?P c" using el ucd_ascii_space32 [OF db] by auto
  then have 3: "map (\<lambda>c. if allowed c \<or> ?P c then c else 32) t = t"
    by (simp add: map_idI)
  have eqP: "\<forall>c \<in> set t. ?P c = (c = 32)"
    using el ucd_ascii_space32 [OF db] ucd_ascii_allowed [OF db] allowed_ascii by blast
  have "spaced (\<lambda>c. c = 32) t" using t by (simp add: sanitized_def)
  then have "spaced ?P t" using spaced_cong [OF eqP] by simp
  then have 4: "collapse ?P t = t" by (rule collapse_fix)
  have "t = [] \<or> (hd t \<noteq> 32 \<and> last t \<noteq> 32)" using t by (simp add: sanitized_def)
  then have "t = [] \<or> (\<not> ?P (hd t) \<and> \<not> ?P (last t))"
    using eqP by (cases "t = []") auto
  then have 5: "strip db t = t" by (rule strip_fix)
  show ?thesis by (simp only: sanitize_eq 1 2 3 4 5)
qed

text \<open>
  C7.  Sanitization is idempotent: for every string, sanitizing the sanitized text gives
  the sanitized text again.  The Unicode database is any one that treats the ASCII range
  as Unicode does.
\<close>

theorem sanitization_idempotent:
  "ucd_ascii db \<Longrightarrow>
   supprimer_accents_et_caracteres_speciaux db (supprimer_accents_et_caracteres_speciaux db x) =
   supprimer_accents_et_caracteres_speciaux db x"
  by (rule sanitized_fixpoint) (simp_all add: sanitize_sanitized)

lemma latin1_decompose_ascii: "c < 128 \<Longrightarrow> latin1_decompose c = [c]"
  by (simp add: latin1_decompose_def latin1_decomposition_def)

lemma latin1_NFD_ascii: "\<forall>c \<in> set s. c < 128 \<Longrightarrow> latin1_NFD s = s"
  by (induction s) (simp_all add: latin1_NFD_def latin1_decompose_ascii)

lemma ucd_latin1_ascii: "ucd_ascii ucd_latin1"
  unfolding ucd_ascii_def
proof (intro conjI allI impI)
  fix s :: ustr assume "\<forall>c \<in> set s. c < 128"
  then show "normalize_NFD ucd_latin1 s = s" by (simp add: ucd_latin1_def latin1_NFD_ascii)
next
  fix c :: cp assume "c < 128"
  then show "\<not> category_Mn ucd_latin1 c" by (simp add: ucd_latin1_def latin1_Mn_def)
next
  fix c :: cp assume "c < 128"
  then show "isspace ucd_latin1 c = ascii_space c" by (auto simp: ucd_latin1_def latin1_space_def)
next
  fix c :: cp assume "c < 128"
  then show "isdecimal ucd_latin1 c = ascii_digit c" by (simp add: ucd_latin1_def)
next
  fix c :: cp assume "c < 128"
  then show "isword ucd_latin1 c = ascii_word c"
    by (auto simp: ucd_latin1_def latin1_word_def latin1_letter_def latin1_numeric_def)
next
  fix c :: cp assume "c < 128"
  then show "toupper ucd_latin1 c = [ascii_upper c]"
    by (auto simp: ucd_latin1_def latin1_upper_def)
next
  fix p c :: cp assume "p < 128" "c < 128"
  then show "ci_match ucd_latin1 p c = (ascii_lower p = ascii_lower c)"
    by (auto simp: ucd_latin1_def latin1_lower_def)
qed

theorem sanitization_idempotent_witness:
  "ucd_ascii ucd_latin1 \<and>
   supprimer_accents_et_caracteres_speciaux ucd_latin1 ([32, 233, 116, 233] @ str ''  4%  '') = str ''ete 4'' \<and>
   supprimer_accents_et_caracteres_speciaux ucd_latin1 (str ''ete 4'') = str ''ete 4''"
proof -
  have v: "supprimer_accents_et_caracteres_speciaux ucd_latin1 ([32, 233, 116, 233] @ str ''  4%  '') = str ''ete 4''"
    by (simp add: sanitize_eq ucd_latin1_def str_def latin1_NFD_def latin1_decompose_def
        latin1_decomposition_def latin1_Mn_def latin1_space_def ascii_space_def allowed_def
        ascii_letter_def ascii_digit_def strip_def)
  show ?thesis
    using sanitization_idempotent [OF ucd_latin1_ascii, of "[32, 233, 116, 233] @ str ''  4%  ''"] ucd_latin1_ascii
    by (simp only: v simp_thms)
qed

section \<open>Scenarios\<close>

lemma c1_nettoye:
  "supprimer_accents_et_caracteres_speciaux ucd_latin1 (str ''D'' @ [233] @ str ''sodorisant 2.5ml 4scent'')
     = str ''Desodorisant 2.5ml 4scent''"
  by (simp add: sanitize_eq ucd_latin1_def str_def latin1_NFD_def latin1_decompose_def
        latin1_decomposition_def latin1_Mn_def latin1_space_def ascii_space_def allowed_def
        ascii_letter_def ascii_digit_def strip_def)

lemma c1_marque:
  "extraire_marque ucd_latin1 marques (str ''Desodorisant 2.5ml 4scent'') = None"
  by code_simp

lemma c1_gv:
  "extraire_grammage_volume ucd_latin1 (str ''Desodorisant 2.5ml 4scent'') = [str ''2,5ML'']"
  by code_simp

lemma c1_nom:
  "nom_produit ucd_latin1 None [str ''2,5ML''] (str ''Desodorisant 2.5ml 4scent'') = str ''Desodorisant 4scent''"
  by code_simp

lemma c1_final:
  "assembler ucd_latin1 None (str ''Desodorisant 4scent'') [str ''2,5ML''] = str ''DESODORISANT 4SCENT 2,5ML''"
  by code_simp

text \<open>
  C1.  The label \<open>D\<acute>esodorisant 2.5ml 4scent\<close> (with U+00E9 for the accented letter) is
  sanitized to \<open>Desodorisant 2.5ml 4scent\<close>; its quantity list is exactly \<open>2,5ML\<close>, the
  dot having become a comma; no brand is found; the product name keeps \<open>4scent\<close>; and the
  pipeline returns \<open>DESODORISANT 4SCENT 2,5ML\<close>.
\<close>

theorem scenario_desodorisant:
  "supprimer_accents_et_caracteres_speciaux ucd_latin1 (str ''D'' @ [233] @ str ''sodorisant 2.5ml 4scent'')
     = str ''Desodorisant 2.5ml 4scent'' \<and>
   extraire_grammage_volume ucd_latin1 (str ''Desodorisant 2.5ml 4scent'') = [str ''2,5ML''] \<and>
   extraire_marque ucd_latin1 marques (str ''Desodorisant 2.5ml 4scent'') = None \<and>
   nom_produit ucd_latin1 None [str ''2,5ML''] (str ''Desodorisant 2.5ml 4scent'') = str ''Desodorisant 4scent'' \<and>
   traiter_libelle ucd_latin1 marques (str ''D'' @ [233] @ str ''sodorisant 2.5ml 4scent'')
     = str ''DESODORISANT 4SCENT 2,5ML''"
  by (simp only: traiter_libelle_def Let_def c1_nettoye c1_marque c1_gv c1_nom c1_final simp_thms)

section \<open>Brand detection\<close>

lemma re_search_iff:
  "re_search db ic r s = (\<exists>i \<le> length s. rmatch db ic s r (i, []) \<noteq> [])"
proof -
  have m: "\<And>i. (match_at db ic r s i \<noteq> None) = (rmatch db ic s r (i, []) \<noteq> [])"
    by (simp add: match_at_def split: list.splits)
  have "re_search db ic r s = (\<exists>i \<in> set [0 ..< Suc (length s)]. rmatch db ic s r (i, []) \<noteq> [])"
    by (simp only: re_search_def list_ex_iff m)
  also have "\<dots> = (\<exists>i \<le> length s. rmatch db ic s r (i, []) \<noteq> [])"
    by (simp only: set_upt atLeastLessThan_iff Bex_def less_Suc_eq_le le0 simp_thms)
  finally show ?thesis .
qed

lemma rmatch_pat_word:
  "i \<le> length s \<Longrightarrow>
   rmatch db ic s (pat_word w) (i, g) =
     (if at_boundary db s i \<and> lit_match db ic w s i \<and> at_boundary db s (i + length w)
      then [(i + length w, g)] else [])"
  by (simp add: pat_word_def seqs_def rmatch.simps rmatch_lits)

lemma slice_map: "slice (map f t) i e = map f (slice t i e)"
  by (simp add: slice_def take_map drop_map)

lemma length_slice: "e \<le> length t \<Longrightarrow> length (slice t i e) = e - i"
  by (simp add: slice_def)

lemma nth_slice: "i + k < e \<Longrightarrow> e \<le> length t \<Longrightarrow> slice t i e ! k = t ! (i + k)"
  by (simp add: slice_def)

lemma lit_match_slice:
  "lit_match db False w s i = (i + length w \<le> length s \<and> slice s i (i + length w) = w)"
proof (cases "i + length w \<le> length s")
  case False
  then show ?thesis by (simp add: lit_match_def)
next
  case True
  have "(slice s i (i + length w) = w) = (\<forall>k<length w. slice s i (i + length w) ! k = w ! k)"
    using True by (auto simp: list_eq_iff_nth_eq length_slice)
  also have "\<dots> = (\<forall>k<length w. s ! (i + k) = w ! k)"
    using True by (simp add: nth_slice)
  finally show ?thesis using True by (auto simp: lit_match_def)
qed

lemma upper_ascii:
  "ucd_ascii db \<Longrightarrow> \<forall>c \<in> set t. c < 128 \<Longrightarrow> upper db t = map ascii_upper t"
  by (induction t) (simp_all add: upper_def ucd_ascii_def)

lemma sanitized_lt: "sanitized t \<Longrightarrow> c \<in> set t \<Longrightarrow> c < 128"
  using allowed_ascii [of c] by (auto simp: sanitized_def)

lemma sanitized_word:
  assumes "ucd_ascii db" "sanitized t" "k < length t"
  shows "isword db (ascii_upper (t ! k)) = alnum (t ! k)"
proof -
  have el: "allowed (t ! k) \<or> t ! k = 32" using assms(2,3) by (auto simp: sanitized_def)
  then have "ascii_upper (t ! k) < 128"
    using allowed_ascii [of "t ! k"] by (auto simp: ascii_upper_def)
  then have "isword db (ascii_upper (t ! k)) = ascii_word (ascii_upper (t ! k))"
    using assms(1) by (simp add: ucd_ascii_def)
  also have "\<dots> = alnum (t ! k)"
    using el by (auto simp: allowed_def ascii_word_def alnum_def ascii_letter_def ascii_digit_def
        ascii_upper_def)
  finally show ?thesis .
qed

lemma brand_token_word:
  assumes "ucd_ascii db" "brand_token w" "c \<in> set w"
  shows "isword db c" "ascii_upper c = c"
proof -
  have c: "(65 \<le> c \<and> c \<le> 90) \<or> ascii_digit c"
    using assms(2,3) by (auto simp: brand_token_def list_all_iff)
  then have "c < 128" by (auto simp: ascii_digit_def)
  then have "isword db c = ascii_word c" using assms(1) by (simp add: ucd_ascii_def)
  then show "isword db c" using c by (auto simp: ascii_word_def ascii_letter_def)
  show "ascii_upper c = c" using c by (auto simp: ascii_upper_def ascii_digit_def)
qed

lemma word_at_iff:
  assumes db: "ucd_ascii db" and t: "sanitized t" and w: "brand_token w" and i: "i \<le> length t"
  shows "(rmatch db False (map ascii_upper t) (pat_word w) (i, []) \<noteq> []) = occurs_as_word t w i"
proof -
  let ?T = "map ascii_upper t"
  let ?n = "length w"
  have n: "0 < ?n" using w by (simp add: brand_token_def)
  have lm: "lit_match db False w ?T i = (i + ?n \<le> length t \<and> map ascii_upper (slice t i (i + ?n)) = w)"
    by (simp add: lit_match_slice slice_map)
  show ?thesis
  proof (cases "i + ?n \<le> length t \<and> map ascii_upper (slice t i (i + ?n)) = w")
    case False
    then show ?thesis using i lm by (auto simp: rmatch_pat_word occurs_as_word_def)
  next
    case True
    then have le: "i + ?n \<le> length t" and eq: "map ascii_upper (slice t i (i + ?n)) = w" by auto
    have nth: "\<And>k. k < ?n \<Longrightarrow> ?T ! (i + k) = w ! k"
    proof -
      fix k assume k: "k < ?n"
      have "w ! k = map ascii_upper (slice t i (i + ?n)) ! k" using eq by simp
      also have "\<dots> = ascii_upper (slice t i (i + ?n) ! k)"
        using k le by (simp add: length_slice)
      also have "\<dots> = ascii_upper (t ! (i + k))" using k le by (simp add: nth_slice)
      finally show "?T ! (i + k) = w ! k" using k le by simp
    qed
    have first: "isword db (?T ! i)"
      using nth [of 0] n brand_token_word(1) [OF db w, of "w ! 0"] by simp
    have last: "isword db (?T ! (i + ?n - 1))"
      using nth [of "?n - 1"] n brand_token_word(1) [OF db w, of "w ! (?n - 1)"] by simp
    have il: "i < length t" using le n by linarith
    have tw: "\<And>k. k < length t \<Longrightarrow> isword db (?T ! k) = alnum (t ! k)"
      using sanitized_word [OF db t] by simp
    have b1: "at_boundary db ?T i = (i = 0 \<or> \<not> alnum (t ! (i - 1)))"
      using first il tw [of "i - 1"] by (cases "i = 0") (auto simp: at_boundary_def)
    have b2: "at_boundary db ?T (i + ?n) = (i + ?n = length t \<or> \<not> alnum (t ! (i + ?n)))"
    proof -
      have e: "0 < i + ?n" "i + ?n \<le> length ?T" using n le by simp_all
      have "at_boundary db ?T (i + ?n) = (\<not> (i + ?n < length ?T \<and> isword db (?T ! (i + ?n))))"
        unfolding at_boundary_def using e last by blast
      also have "\<dots> = (i + ?n = length t \<or> \<not> alnum (t ! (i + ?n)))"
        using le tw [of "i + ?n"] by (cases "i + ?n = length t") auto
      finally show ?thesis .
    qed
    show ?thesis using True i lm b1 b2
      by (simp add: rmatch_pat_word occurs_as_word_def)
  qed
qed

lemma search_brand_iff:
  assumes db: "ucd_ascii db" and t: "sanitized t" and w: "brand_token w"
  shows "re_search db False (pat_word w) (upper db t) = (\<exists>i. occurs_as_word t w i)"
proof -
  have u: "upper db t = map ascii_upper t"
    using upper_ascii [OF db] sanitized_lt [OF t] by blast
  have "re_search db False (pat_word w) (map ascii_upper t) =
          (\<exists>i \<le> length t. occurs_as_word t w i)"
    unfolding re_search_iff length_map using word_at_iff [OF db t w] by auto
  also have "\<dots> = (\<exists>i. occurs_as_word t w i)"
  proof -
    have "\<And>i. occurs_as_word t w i \<Longrightarrow> i \<le> length t" by (simp add: occurs_as_word_def)
    then show ?thesis by blast
  qed
  finally show ?thesis using u by simp
qed

lemma marques_tokens: "\<forall>b \<in> set marques. brand_token b"
  by (simp add: marques_def brand_token_def str_def ascii_digit_def)

text \<open>
  C3.  For every sanitized text, \<open>extraire_marque\<close> with the configured brand list returns
  the first brand, in the order of the list, that occurs in the text as a whole word
  (compared without case, bounded by non-alphanumeric characters or the edges of the text),
  wherever in the text the brands occur, and returns \<open>None\<close> when no brand of the list
  occurs so.
\<close>

theorem marque_premiere_dans_la_liste:
  assumes "ucd_ascii db" and "sanitized t"
  shows "extraire_marque db marques t = find (\<lambda>b. \<exists>i. occurs_as_word t b i) marques"
proof -
  have "\<forall>b \<in> set marques. re_search db False (pat_word b) (upper db t) = (\<exists>i. occurs_as_word t b i)"
    using search_brand_iff [OF assms] marques_tokens by blast
  then have "find (\<lambda>b. re_search db False (pat_word b) (upper db t)) marques =
             find (\<lambda>b. \<exists>i. occurs_as_word t b i) marques"
    by (intro find_cong) auto
  then show ?thesis by (simp add: extraire_marque_def)
qed

theorem marque_premiere_dans_la_liste_witness:
  "ucd_ascii ucd_latin1 \<and> sanitized (str ''pm stylo crf'') \<and>
   occurs_as_word (str ''pm stylo crf'') (str ''PM'') 0 \<and>
   occurs_as_word (str ''pm stylo crf'') (str ''CRF'') 9 \<and>
   extraire_marque ucd_latin1 marques (str ''pm stylo crf'') = Some (str ''CRF'')"
proof -
  have s: "sanitized (str ''pm stylo crf'')"
    by (simp add: sanitized_def str_def allowed_def ascii_letter_def ascii_digit_def)
  have pm: "occurs_as_word (str ''pm stylo crf'') (str ''PM'') 0"
    by (simp add: occurs_as_word_def slice_def str_def ascii_upper_def alnum_def
        ascii_letter_def ascii_digit_def)
  have crf: "occurs_as_word (str ''pm stylo crf'') (str ''CRF'') 9"
    by (simp add: occurs_as_word_def slice_def str_def ascii_upper_def alnum_def
        ascii_letter_def ascii_digit_def)
  then have ex: "\<exists>i. occurs_as_word (str ''pm stylo crf'') (str ''CRF'') i" by blast
  have "find (\<lambda>b. \<exists>i. occurs_as_word (str ''pm stylo crf'') b i) marques = Some (str ''CRF'')"
    using ex by (simp add: marques_def)
  then have "extraire_marque ucd_latin1 marques (str ''pm stylo crf'') = Some (str ''CRF'')"
    using marque_premiere_dans_la_liste [OF ucd_latin1_ascii s] by simp
  then show ?thesis using ucd_latin1_ascii s pm crf by blast
qed

section \<open>Rule 4: single digits\<close>

lemma in_rmatch_lits:
  "fst st \<le> length s \<Longrightarrow>
   (x \<in> set (rmatch db ic s (lits w) st)) =
     (lit_match db ic w s (fst st) \<and> x = (fst st + length w, snd st))"
  by (auto simp: rmatch_lits)

lemma in_pat_unit:
  "fst st \<le> length s \<Longrightarrow>
   (x \<in> set (rmatch db ic s pat_unit st)) =
     (\<exists>u \<in> set unites. lit_match db ic u s (fst st) \<and> x = (fst st + length u, snd st))"
  by (auto simp: pat_unit_def in_rmatch_Alt in_rmatch_lits unites_def)

lemma in_pattern4:
  assumes "x \<in> set (rmatch db False s pattern4 (p, []))" and "p \<le> length s"
  shows "\<exists>d k u. ((p = 0 \<and> d = 0) \<or> (p < length s \<and> isspace db (s ! p) \<and> d = Suc p)) \<and>
           d < length s \<and> 49 \<le> s ! d \<and> s ! d \<le> 57 \<and>
           k \<le> run db False space s (Suc d) \<and> u \<in> set unites \<and>
           lit_match db False u s (Suc d + k) \<and>
           at_boundary db s (Suc d + k + length u) \<and>
           x = (Suc d + k + length u, [(d, Suc d), (Suc d + k, Suc d + k + length u)])"
proof -
  have p4: "pattern4 = Seq (Alt Bol (One space)) (Seq (Grp (One digit19))
              (Seq (Rep space 0 None) (Seq (Grp pat_unit) (Seq WordB Eps))))"
    by (simp add: pattern4_def seqs_def)
  from assms(1) obtain y1 where y1: "y1 \<in> set (rmatch db False s (Alt Bol (One space)) (p, []))"
    and r1: "x \<in> set (rmatch db False s (Seq (Grp (One digit19))
              (Seq (Rep space 0 None) (Seq (Grp pat_unit) (Seq WordB Eps)))) y1)"
    unfolding p4 in_rmatch_Seq [of x db False s "Alt Bol (One space)"] by blast
  define d where "d = fst y1"
  have y1': "y1 = (d, [])" and dp: "(p = 0 \<and> d = 0) \<or> (p < length s \<and> isspace db (s ! p) \<and> d = Suc p)"
    using y1 by (auto simp: in_rmatch d_def space_def)
  have dle: "d \<le> length s" using dp assms(2) by auto
  from r1 obtain y2 where y2: "y2 \<in> set (rmatch db False s (Grp (One digit19)) (d, []))"
    and r2: "x \<in> set (rmatch db False s (Seq (Rep space 0 None) (Seq (Grp pat_unit) (Seq WordB Eps))) y2)"
    unfolding y1' in_rmatch_Seq [of x db False s "Grp (One digit19)"] by blast
  have y2': "y2 = (Suc d, [(d, Suc d)])" and dg: "d < length s" "49 \<le> s ! d" "s ! d \<le> 57"
    using y2 by (auto simp: in_rmatch digit19_def)
  from r2 obtain y3 where y3: "y3 \<in> set (rmatch db False s (Rep space 0 None) (Suc d, [(d, Suc d)]))"
    and r3: "x \<in> set (rmatch db False s (Seq (Grp pat_unit) (Seq WordB Eps)) y3)"
    unfolding y2' in_rmatch_Seq [of x db False s "Rep space 0 None"] by blast
  from y3 obtain k where k: "k \<le> run db False space s (Suc d)" and y3': "y3 = (Suc d + k, [(d, Suc d)])"
    by (auto simp: in_rmatch_Rep)
  have kle: "Suc d + k \<le> length s"
    using k dg(1) le_run [of k db False space s "Suc d"] by auto
  from r3 obtain y4 where y4: "y4 \<in> set (rmatch db False s (Grp pat_unit) (Suc d + k, [(d, Suc d)]))"
    and r4: "x \<in> set (rmatch db False s (Seq WordB Eps) y4)"
    unfolding y3' in_rmatch_Seq [of x db False s "Grp pat_unit"] by blast
  from y4 obtain u where u: "u \<in> set unites" "lit_match db False u s (Suc d + k)"
    and y4': "y4 = (Suc d + k + length u, [(d, Suc d), (Suc d + k, Suc d + k + length u)])"
    using kle by (auto simp: in_rmatch_Grp in_pat_unit)
  have "at_boundary db s (Suc d + k + length u) \<and> x = y4"
    using r4 by (auto simp: in_rmatch y4')
  then show ?thesis using dp dg k u y4' by blast
qed

lemma slice_one: "d < length s \<Longrightarrow> slice s d (Suc d) = [s ! d]"
  by (simp add: slice_def take_Suc_conv_app_nth)

lemma lit_match_cs: "lit_match db False u s i \<Longrightarrow> slice s i (i + length u) = u"
  by (simp add: lit_match_slice)

lemma pattern4_match:
  assumes "q \<in> set (finditer db False pattern4 s 0)"
  shows "\<exists>d k u. d < length s \<and> 49 \<le> s ! d \<and> s ! d \<le> 57 \<and>
           (d = 0 \<or> isspace db (s ! (d - 1))) \<and>
           (\<forall>j<k. isspace db (s ! (Suc d + j))) \<and> u \<in> set unites \<and>
           slice s (Suc d + k) (Suc d + k + length u) = u \<and>
           fst (snd q) = Suc d + k + length u \<and>
           group s (snd q) 1 = [s ! d] \<and> group s (snd q) 2 = u"
proof -
  have "(fst q, snd q) \<in> set (finditer db False pattern4 s 0)" using assms by simp
  from finditer_sound [OF this]
  have p: "fst q \<le> length s" and m: "match_at db False pattern4 s (fst q) = Some (snd q)" by auto
  from m have "snd q \<in> set (rmatch db False s pattern4 (fst q, []))"
    by (auto simp: match_at_def split: list.splits)
  from in_pattern4 [OF this p] obtain d k u where
    dp: "(fst q = 0 \<and> d = 0) \<or> (fst q < length s \<and> isspace db (s ! fst q) \<and> d = Suc (fst q))"
    and d: "d < length s" "49 \<le> s ! d" "s ! d \<le> 57"
    and k: "k \<le> run db False space s (Suc d)" and u: "u \<in> set unites"
    and lm: "lit_match db False u s (Suc d + k)"
    and x: "snd q = (Suc d + k + length u, [(d, Suc d), (Suc d + k, Suc d + k + length u)])"
    by blast
  have pre: "d = 0 \<or> isspace db (s ! (d - 1))" using dp by auto
  have sp: "\<forall>j<k. isspace db (s ! (Suc d + j))"
    using k le_run [of k db False space s "Suc d"] by (auto simp: space_def)
  have sl: "slice s (Suc d + k) (Suc d + k + length u) = u" using lm by (rule lit_match_cs)
  have g1: "group s (snd q) 1 = [s ! d]" using d(1) by (simp add: x group_def slice_one)
  have g2: "group s (snd q) 2 = u" using sl by (simp add: x group_def)
  show ?thesis using d pre sp u sl x g1 g2 by auto
qed

lemma c4_sanitized: "sanitized (str ''5 BQ ALU 1,5L PROFONDE'')"
  by (simp add: sanitized_def str_def allowed_def ascii_letter_def ascii_digit_def)

lemma c4_r4: "regle4 ucd_latin1 (upper ucd_latin1 (str ''5 BQ ALU 1,5L PROFONDE'')) = []"
  by code_simp

lemma c4_gv: "extraire_grammage_volume ucd_latin1 (str ''5 BQ ALU 1,5L PROFONDE'') = [str ''1,5L'']"
  by code_simp

lemma c4_marque: "extraire_marque ucd_latin1 marques (str ''5 BQ ALU 1,5L PROFONDE'') = None"
  by code_simp

lemma c4_nom:
  "nom_produit ucd_latin1 None [str ''1,5L''] (str ''5 BQ ALU 1,5L PROFONDE'') = str ''5 BQ ALU PROFONDE''"
  by code_simp

lemma c4_final:
  "assembler ucd_latin1 None (str ''5 BQ ALU PROFONDE'') [str ''1,5L''] = str ''5 BQ ALU PROFONDE 1,5L''"
  by code_simp

text \<open>
  C4.  In every text, each match of rule 4 captures, as group 1, a single digit 1 to 9
  that stands at the start of the text or after a whitespace character, and, as group 2, a
  unit that follows the digit, possibly after whitespace; the token of rule 4 is the two
  groups put together.  For \<open>5 BQ ALU 1,5L PROFONDE\<close> rule 4 captures nothing, the quantity
  list is exactly \<open>1,5L\<close>, and the assembled result is \<open>5 BQ ALU PROFONDE 1,5L\<close>.
\<close>

theorem regle4_contexte:
  "(\<forall>q \<in> set (finditer db False pattern4 s 0).
      \<exists>d k u. d < length s \<and> 49 \<le> s ! d \<and> s ! d \<le> 57 \<and>
        (d = 0 \<or> isspace db (s ! (d - 1))) \<and>
        (\<forall>j<k. isspace db (s ! (Suc d + j))) \<and> u \<in> set unites \<and>
        slice s (Suc d + k) (Suc d + k + length u) = u \<and>
        fst (snd q) = Suc d + k + length u \<and>
        group s (snd q) 1 = [s ! d] \<and> group s (snd q) 2 = u) \<and>
   regle4 db s = map (\<lambda>q. group s (snd q) 1 @ group s (snd q) 2) (finditer db False pattern4 s 0) \<and>
   regle4 ucd_latin1 (upper ucd_latin1 (str ''5 BQ ALU 1,5L PROFONDE'')) = [] \<and>
   extraire_grammage_volume ucd_latin1 (str ''5 BQ ALU 1,5L PROFONDE'') = [str ''1,5L''] \<and>
   traiter_libelle ucd_latin1 marques (str ''5 BQ ALU 1,5L PROFONDE'') = str ''5 BQ ALU PROFONDE 1,5L''"
proof -
  have a: "\<forall>q \<in> set (finditer db False pattern4 s 0).
      \<exists>d k u. d < length s \<and> 49 \<le> s ! d \<and> s ! d \<le> 57 \<and>
        (d = 0 \<or> isspace db (s ! (d - 1))) \<and>
        (\<forall>j<k. isspace db (s ! (Suc d + j))) \<and> u \<in> set unites \<and>
        slice s (Suc d + k) (Suc d + k + length u) = u \<and>
        fst (snd q) = Suc d + k + length u \<and>
        group s (snd q) 1 = [s ! d] \<and> group s (snd q) 2 = u"
    using pattern4_match by blast
  have b: "regle4 db s = map (\<lambda>q. group s (snd q) 1 @ group s (snd q) 2) (finditer db False pattern4 s 0)"
    by (simp add: regle4_def re_findall2_def case_prod_unfold comp_def)
  have n: "supprimer_accents_et_caracteres_speciaux ucd_latin1 (str ''5 BQ ALU 1,5L PROFONDE'')
             = str ''5 BQ ALU 1,5L PROFONDE''"
    using ucd_latin1_ascii c4_sanitized by (rule sanitized_fixpoint)
  have c: "traiter_libelle ucd_latin1 marques (str ''5 BQ ALU 1,5L PROFONDE'') = str ''5 BQ ALU PROFONDE 1,5L''"
    by (simp only: traiter_libelle_def Let_def n c4_marque c4_gv c4_nom c4_final)
  show ?thesis using a b c c4_r4 c4_gv by blast
qed

theorem regle4_contexte_witness:
  "(4, 8, [(5, 6), (7, 8)]) \<in> set (finditer ucd_latin1 False pattern4 (str ''1L X 2 G'') 0) \<and>
   (\<exists>d k u. d < length (str ''1L X 2 G'') \<and> 49 \<le> str ''1L X 2 G'' ! d \<and> str ''1L X 2 G'' ! d \<le> 57 \<and>
      (d = 0 \<or> isspace ucd_latin1 (str ''1L X 2 G'' ! (d - 1))) \<and>
      (\<forall>j<k. isspace ucd_latin1 (str ''1L X 2 G'' ! (Suc d + j))) \<and> u \<in> set unites \<and>
      slice (str ''1L X 2 G'') (Suc d + k) (Suc d + k + length u) = u \<and>
      8 = Suc d + k + length u \<and>
      group (str ''1L X 2 G'') (8, [(5, 6), (7, 8)]) 1 = [str ''1L X 2 G'' ! d] \<and>
      group (str ''1L X 2 G'') (8, [(5, 6), (7, 8)]) 2 = u)"
proof -
  have m: "(4, 8, [(5, 6), (7, 8)]) \<in> set (finditer ucd_latin1 False pattern4 (str ''1L X 2 G'') 0)"
    by code_simp
  from regle4_contexte [of ucd_latin1 "str ''1L X 2 G''", THEN conjunct1, THEN bspec, OF m] m
  show ?thesis by simp
qed

section \<open>Whitespace inside quantity tokens\<close>

lemma dot_to_comma_refl: "list_all2 dot_to_comma xs xs"
  by (simp add: list_all2_refl dot_to_comma_def)

lemma in_pev:
  assumes "x \<in> set (rmatch db False s
             (seqs [Grp (Rep digit 1 None), One (Lit 46), Grp (Rep digit 1 None)]) (p, []))"
    and "p \<le> length s"
  shows "\<exists>j e. p < j \<and> j < e \<and> e \<le> length s \<and> s ! j = 46 \<and>
           x = (e, [(p, j), (Suc j, e)])"
proof -
  let ?D = "Grp (Rep digit 1 None)"
  have r: "seqs [?D, One (Lit 46), ?D] = Seq ?D (Seq (One (Lit 46)) (Seq ?D Eps))"
    by (simp add: seqs_def)
  from assms(1) obtain y1 where y1: "y1 \<in> set (rmatch db False s ?D (p, []))"
    and r1: "x \<in> set (rmatch db False s (Seq (One (Lit 46)) (Seq ?D Eps)) y1)"
    unfolding r in_rmatch_Seq [of x db False s ?D] by blast
  from y1 obtain a where a: "1 \<le> a" "a \<le> run db False digit s p" and y1': "y1 = (p + a, [(p, p + a)])"
    by (auto simp: in_rmatch_Grp in_rmatch_Rep)
  have ale: "p + a \<le> length s" using a le_run [of a db False digit s p] by auto
  from r1 obtain y2 where y2: "y2 \<in> set (rmatch db False s (One (Lit 46)) (p + a, [(p, p + a)]))"
    and r2: "x \<in> set (rmatch db False s (Seq ?D Eps) y2)"
    unfolding y1' in_rmatch_Seq [of x db False s "One (Lit 46)"] by blast
  have y2': "y2 = (Suc (p + a), [(p, p + a)])" and dot: "p + a < length s" "s ! (p + a) = 46"
    using y2 by (auto simp: in_rmatch_One)
  from r2 obtain y3 where y3: "y3 \<in> set (rmatch db False s ?D (Suc (p + a), [(p, p + a)]))"
    and r3: "x \<in> set (rmatch db False s Eps y3)"
    unfolding y2' in_rmatch_Seq [of x db False s ?D] by blast
  from y3 obtain b where b: "1 \<le> b" "b \<le> run db False digit s (Suc (p + a))"
    and y3': "y3 = (Suc (p + a) + b, [(p, p + a), (Suc (p + a), Suc (p + a) + b)])"
    by (auto simp: in_rmatch_Grp in_rmatch_Rep)
  have ble: "Suc (p + a) + b \<le> length s"
    using b le_run [of b db False digit s "Suc (p + a)"] by auto
  have "x = y3" using r3 by (simp add: in_rmatch_Eps)
  then have "p < p + a \<and> p + a < Suc (p + a) + b \<and> Suc (p + a) + b \<le> length s \<and>
             s ! (p + a) = 46 \<and> x = (Suc (p + a) + b, [(p, p + a), (Suc (p + a), Suc (p + a) + b)])"
    using a(1) b(1) ble dot y3' by simp
  then show ?thesis by blast
qed

lemma drop_slice: "p \<le> e \<Longrightarrow> e \<le> length s \<Longrightarrow> drop p s = slice s p e @ drop e s"
proof -
  assume pe: "p \<le> e" and "e \<le> length s"
  have "drop p s = take (e - p) (drop p s) @ drop (e - p) (drop p s)"
    by (simp only: append_take_drop_id)
  then show ?thesis using pe by (simp add: slice_def)
qed

lemma slice_mid:
  assumes "p \<le> j" "j < e" "e \<le> length s"
  shows "slice s p e = slice s p j @ [s ! j] @ slice s (Suc j) e"
proof -
  have "slice s p e = slice s p j @ slice s j e" using assms slice_split [of p j e s] by simp
  also have "slice s j e = slice s j (Suc j) @ slice s (Suc j) e"
    using assms slice_split [of j "Suc j" e s] by simp
  also have "slice s j (Suc j) = [s ! j]" using assms by (simp add: slice_one)
  finally show ?thesis by simp
qed

lemma pev_pieces:
  "pos \<le> length s \<Longrightarrow>
   list_all2 dot_to_comma (drop pos s)
     (sub_pieces s [RGroup 1, RChar 44, RGroup 2] pos
        (finditer db False (seqs [Grp (Rep digit 1 None), One (Lit 46), Grp (Rep digit 1 None)]) s pos))"
proof (induction db False "seqs [Grp (Rep digit 1 None), One (Lit 46), Grp (Rep digit 1 None)]" s pos
       rule: finditer.induct)
  case (1 db s pos)
  let ?r = "seqs [Grp (Rep digit 1 None), One (Lit 46), Grp (Rep digit 1 None)]"
  let ?t = "[RGroup 1, RChar 44, RGroup 2]"
  show ?case
  proof (cases "match_at db False ?r s pos")
    case None
    have f: "finditer db False ?r s pos = finditer db False ?r s (Suc pos)"
      using finditer_None [OF "1.prems" None] .
    show ?thesis
    proof (cases "pos < length s")
      case False
      then have "finditer db False ?r s (Suc pos) = []" using "1.prems" by (simp add: finditer_beyond)
      then show ?thesis using f False by simp
    next
      case True
      have nb: "\<not> length s < pos" using True by simp
      have ih: "list_all2 dot_to_comma (drop (Suc pos) s)
                 (sub_pieces s ?t (Suc pos) (finditer db False ?r s (Suc pos)))"
        using "1.hyps"(1) [OF nb None] True by simp
      have d: "drop pos s = s ! pos # drop (Suc pos) s" using True by (simp add: Cons_nth_drop_Suc)
      show ?thesis unfolding f d sub_pieces_skip [OF True] using ih by (simp add: dot_to_comma_def)
    qed
  next
    case (Some m)
    then have "m \<in> set (rmatch db False s ?r (pos, []))"
      by (auto simp: match_at_def split: list.splits)
    from in_pev [OF this "1.prems"] obtain j e where
      je: "pos < j" "j < e" "e \<le> length s" "s ! j = 46" and m: "m = (e, [(pos, j), (Suc j, e)])"
      by blast
    have nb: "\<not> length s < pos" using "1.prems" by simp
    have pe: "pos < e" using je by simp
    have f: "finditer db False ?r s pos = (pos, m) # finditer db False ?r s e"
      using finditer_Some [OF "1.prems" Some] pe by (simp add: m)
    have ih: "list_all2 dot_to_comma (drop e s) (sub_pieces s ?t e (finditer db False ?r s e))"
      using "1.hyps"(2) [OF nb Some] pe je(3) by (simp add: m)
    have ex: "expand s m ?t = slice s pos j @ [44] @ slice s (Suc j) e"
      by (simp add: expand_def group_def m)
    have sl: "slice s pos e = slice s pos j @ [s ! j] @ slice s (Suc j) e"
      using je by (intro slice_mid) simp_all
    have "list_all2 dot_to_comma (slice s pos e) (expand s m ?t)"
      unfolding ex sl using je(4)
      by (intro list_all2_appendI dot_to_comma_refl) (simp add: dot_to_comma_def)
    then have "list_all2 dot_to_comma (slice s pos e @ drop e s)
                 (expand s m ?t @ sub_pieces s ?t e (finditer db False ?r s e))"
      using ih by (rule list_all2_appendI)
    moreover have "drop pos s = slice s pos e @ drop e s"
      using pe je(3) by (intro drop_slice) simp_all
    moreover have "sub_pieces s ?t pos (finditer db False ?r s pos) =
                   expand s m ?t @ sub_pieces s ?t e (finditer db False ?r s e)"
      unfolding f by (simp add: slice_def m)
    ultimately show ?thesis by simp
  qed
qed

lemma point_en_virgule_rel: "list_all2 dot_to_comma m (point_en_virgule db m)"
  using pev_pieces [of 0 m db] by (simp add: point_en_virgule_def re_sub_def)

lemma regle4_token:
  assumes "q \<in> set (finditer db False pattern4 s 0)"
  shows "\<exists>c u. 49 \<le> c \<and> c \<le> 57 \<and> u \<in> set unites \<and>
           group s (snd q) 1 @ group s (snd q) 2 = c # u"
proof -
  from pattern4_match [OF assms] obtain d k u where
    "49 \<le> s ! d" "s ! d \<le> 57" "u \<in> set unites"
    "group s (snd q) 1 = [s ! d]" "group s (snd q) 2 = u"
    by blast
  then have "49 \<le> s ! d \<and> s ! d \<le> 57 \<and> u \<in> set unites \<and>
             group s (snd q) 1 @ group s (snd q) 2 = s ! d # u" by simp
  then show ?thesis by blast
qed

lemma c10_r4: "regle4 ucd_latin1 (str ''4 G'') = [str ''4G'']"
  by code_simp

lemma c10_r1: "regle1 ucd_latin1 (str ''2.5 KG'') = [str ''2,5 KG'']"
  by code_simp

lemma c10_r2: "regle2 ucd_latin1 (str ''6X30 G'') = [str ''6X30 G'']"
  by code_simp

lemma c10_r3: "regle3 ucd_latin1 (str ''250 G'') = [str ''250 G'']"
  by code_simp

lemma c10_r5: "regle5 ucd_latin1 (str ''1/2 L'') = [str ''1/2 L'']"
  by code_simp

text \<open>
  C10.  The token of every match of rule 4 is the digit (1 to 9) directly followed by the
  unit, whatever whitespace the text has between them: \<open>4 G\<close> gives \<open>4G\<close>.  The tokens of
  rules 3 and 5 are the matched substrings as they stand, and those of rules 1 and 2 the
  matched substrings in which nothing but periods (to commas) has changed, so the whitespace
  matched between number and unit stays in the token: \<open>250 G\<close>, \<open>2,5 KG\<close>, \<open>6X30 G\<close>,
  \<open>1/2 L\<close>.
\<close>

theorem regle4_sans_espace:
  "(\<forall>q \<in> set (finditer db False pattern4 s 0).
      \<exists>c u. 49 \<le> c \<and> c \<le> 57 \<and> u \<in> set unites \<and>
            group s (snd q) 1 @ group s (snd q) 2 = c # u) \<and>
   regle4 db s = map (\<lambda>q. group s (snd q) 1 @ group s (snd q) 2) (finditer db False pattern4 s 0) \<and>
   regle1 db s = map (\<lambda>q. point_en_virgule db (slice s (fst q) (fst (snd q))))
                   (finditer db False pattern1 s 0) \<and>
   regle2 db s = map (\<lambda>q. point_en_virgule db (slice s (fst q) (fst (snd q))))
                   (finditer db False pattern2 s 0) \<and>
   regle3 db s = map (\<lambda>q. slice s (fst q) (fst (snd q))) (finditer db False pattern3 s 0) \<and>
   regle5 db s = map (\<lambda>q. slice s (fst q) (fst (snd q))) (finditer db False pattern5 s 0) \<and>
   list_all2 dot_to_comma m (point_en_virgule db m) \<and>
   regle4 ucd_latin1 (str ''4 G'') = [str ''4G''] \<and>
   regle1 ucd_latin1 (str ''2.5 KG'') = [str ''2,5 KG''] \<and>
   regle2 ucd_latin1 (str ''6X30 G'') = [str ''6X30 G''] \<and>
   regle3 ucd_latin1 (str ''250 G'') = [str ''250 G''] \<and>
   regle5 ucd_latin1 (str ''1/2 L'') = [str ''1/2 L'']"
proof -
  have a: "\<forall>q \<in> set (finditer db False pattern4 s 0).
      \<exists>c u. 49 \<le> c \<and> c \<le> 57 \<and> u \<in> set unites \<and>
            group s (snd q) 1 @ group s (snd q) 2 = c # u"
    using regle4_token by blast
  have r4: "regle4 db s = map (\<lambda>q. group s (snd q) 1 @ group s (snd q) 2) (finditer db False pattern4 s 0)"
    by (simp add: regle4_def re_findall2_def case_prod_unfold comp_def)
  have r1: "regle1 db s = map (\<lambda>q. point_en_virgule db (slice s (fst q) (fst (snd q))))
                   (finditer db False pattern1 s 0)"
    by (simp add: regle1_def re_findall_def case_prod_unfold comp_def)
  have r2: "regle2 db s = map (\<lambda>q. point_en_virgule db (slice s (fst q) (fst (snd q))))
                   (finditer db False pattern2 s 0)"
    by (simp add: regle2_def re_findall_def case_prod_unfold comp_def)
  have r3: "regle3 db s = map (\<lambda>q. slice s (fst q) (fst (snd q))) (finditer db False pattern3 s 0)"
    by (simp add: regle3_def re_findall_def case_prod_unfold)
  have r5: "regle5 db s = map (\<lambda>q. slice s (fst q) (fst (snd q))) (finditer db False pattern5 s 0)"
    by (simp add: regle5_def re_findall_def case_prod_unfold)
  show ?thesis
    using a r4 r1 r2 r3 r5 point_en_virgule_rel [of m db] c10_r4 c10_r1 c10_r2 c10_r3 c10_r5
    by blast
qed

theorem regle4_sans_espace_witness:
  "(0, 3, [(0, 1), (2, 3)]) \<in> set (finditer ucd_latin1 False pattern4 (str ''4 G'') 0) \<and>
   slice (str ''4 G'') 0 3 = str ''4 G'' \<and>
   (\<exists>c u. 49 \<le> c \<and> c \<le> 57 \<and> u \<in> set unites \<and>
      group (str ''4 G'') (3, [(0, 1), (2, 3)]) 1 @ group (str ''4 G'') (3, [(0, 1), (2, 3)]) 2 = c # u)"
proof -
  have m: "(0, 3, [(0, 1), (2, 3)]) \<in> set (finditer ucd_latin1 False pattern4 (str ''4 G'') 0)"
    by code_simp
  have s: "slice (str ''4 G'') 0 3 = str ''4 G''" by (simp add: slice_def str_def)
  from regle4_sans_espace [of ucd_latin1 "str ''4 G''", THEN conjunct1, THEN bspec, OF m] m s
  show ?thesis by simp
qed

(*PROOFS-END*)

end
